theory Spec2Isabelle
  imports Complex_Main "HOL-Library.Sublist" "HOL-Library.Multiset" "HOL-Library.Log_Nat"
begin

section \<open>The JMeter results parser of generateUnifiedReport.js\<close>

text \<open>
  The development embeds the parsing core of \<^verbatim>\<open>src/generateUnifiedReport.js\<close>:
  \<^verbatim>\<open>parseCSVLine\<close>, \<^verbatim>\<open>calculateStatistics\<close>, \<^verbatim>\<open>percentile\<close>, the scanning loop of
  \<^verbatim>\<open>parseJMeterResults\<close> and \<^verbatim>\<open>countThreadInstances\<close>.

  Conventions of the embedding.
  \<^item> A JavaScript string is a \<^typ>\<open>string\<close>; the characters are the code units below 256.
  \<^item> A JavaScript number is an IEEE binary64 value. The finite ones are rationals, so a
    number is a \<^typ>\<open>rat\<close>, or an \<^typ>\<open>int\<close> where the code only produces integers, and
    every arithmetic operation of the code rounds its exact result to the nearest binary64
    value, a tie going to the even significand (\<open>roundToDouble\<close> below). The exponent range is
    not limited in the model: \<^verbatim>\<open>Infinity\<close>, \<^verbatim>\<open>NaN\<close>, the subnormal numbers and the sign of
    zero are left out. Counters, array indices, and the comparisons and differences of
    time stamps are written in \<^typ>\<open>nat\<close> and \<^typ>\<open>int\<close>; they are exact below \<open>2^53\<close>.
  \<^item> \<^verbatim>\<open>undefined\<close> (an array read out of range) is \<^term>\<open>None\<close>.
  \<^item> A thrown exception is \<^term>\<open>Inl e\<close>.
  \<^item> \<^verbatim>\<open>parseJMeterResults\<close> is modelled from the text of the CSV file on; looking the file
    up and reading it, the formatting of dates, \<^verbatim>\<open>analyzeErrors\<close> and the extraction of
    the environment name are left out.
\<close>

subsection \<open>Characters and strings\<close>

definition dquote :: char where
  "dquote = CHR 0x22"

definition comma :: char where
  "comma = CHR '',''"

text \<open>The white space of \<^verbatim>\<open>String.prototype.trim\<close> and of the regular expression class
  \<^verbatim>\<open>\s\<close>, among the characters below 256: TAB, LF, VT, FF, CR, SP and NBSP.\<close>

definition isSpace :: "char \<Rightarrow> bool" where
  "isSpace c = (c \<in> set [CHR 0x09, CHR 0x0A, CHR 0x0B, CHR 0x0C, CHR 0x0D, CHR 0x20, CHR 0xA0])"

text \<open>The class \<^verbatim>\<open>\d\<close>.\<close>

definition isDigit :: "char \<Rightarrow> bool" where
  "isDigit c = (c \<in> set ''0123456789'')"

text \<open>What \<^verbatim>\<open>.\<close> does not match (no \<^verbatim>\<open>s\<close> flag): the line terminators.\<close>

definition isLineTerminator :: "char \<Rightarrow> bool" where
  "isLineTerminator c = (c = CHR 0x0A \<or> c = CHR 0x0D)"

definition trim :: "string \<Rightarrow> string" where
  "trim s = rev (dropWhile isSpace (rev (dropWhile isSpace s)))"

text \<open>\<^verbatim>\<open>s.includes(p)\<close>: \<^term>\<open>p\<close> occurs in \<^term>\<open>s\<close> as a contiguous block.\<close>

fun includes_str :: "string \<Rightarrow> string \<Rightarrow> bool" where
  "includes_str [] p = (p = [])"
| "includes_str (c # s) p = (prefix p (c # s) \<or> includes_str s p)"

subsection \<open>parseCSVLine\<close>

text \<open>
  The loop of \<^verbatim>\<open>parseCSVLine\<close>, on the characters that remain from index \<^verbatim>\<open>i\<close> on.
  \<^verbatim>\<open>line[i + 1]\<close> beyond the end is \<^verbatim>\<open>undefined\<close>, which is not a quote; the
  \<^verbatim>\<open>i++\<close> of the doubled quote skips one more character.
\<close>

function parseCSVLine_loop :: "string \<Rightarrow> string list \<Rightarrow> string \<Rightarrow> bool \<Rightarrow> string list" where
  "parseCSVLine_loop [] result current inQuotes = result @ [current]"
| "parseCSVLine_loop (c # rest) result current inQuotes =
     (if c = dquote then
        (if inQuotes \<and> (case rest of [] \<Rightarrow> False | d # _ \<Rightarrow> d = dquote)
         then parseCSVLine_loop (tl rest) result (current @ [dquote]) inQuotes
         else parseCSVLine_loop rest result current (\<not> inQuotes))
      else if c = comma \<and> \<not> inQuotes then parseCSVLine_loop rest (result @ [current]) [] inQuotes
      else parseCSVLine_loop rest result (current @ [c]) inQuotes)"
  by pat_completeness auto
termination
  by (relation "measure (\<lambda>(l, _, _, _). length l)") auto

definition parseCSVLine :: "string \<Rightarrow> string list" where
  "parseCSVLine line = parseCSVLine_loop line [] [] False"

subsection \<open>Writing a CSV line, to state what the tokenizer reads back\<close>

text \<open>A quoted field: the content between two quotes, every quote of the content doubled.\<close>

definition escapeQuotes :: "string \<Rightarrow> string" where
  "escapeQuotes f = concat (map (\<lambda>c. if c = dquote then [dquote, dquote] else [c]) f)"

definition quoteField :: "string \<Rightarrow> string" where
  "quoteField f = dquote # escapeQuotes f @ [dquote]"

text \<open>\<^term>\<open>e\<close> is a way of writing the field \<^term>\<open>f\<close>: as it is when it has neither quote
  nor comma, or quoted.\<close>

definition writesField :: "string \<Rightarrow> string \<Rightarrow> bool" where
  "writesField e f = ((e = f \<and> dquote \<notin> set f \<and> comma \<notin> set f) \<or> e = quoteField f)"

fun joinComma :: "string list \<Rightarrow> string" where
  "joinComma [] = []"
| "joinComma [e] = e"
| "joinComma (e # es) = e @ comma # joinComma es"


subsection \<open>Numbers\<close>

text \<open>The integer nearest to \<open>y\<close>, the even one of the two at a tie.\<close>

definition roundHalfEven :: "rat \<Rightarrow> int" where
  "roundHalfEven y =
     (let f = \<lfloor>y\<rfloor>; d = y - of_int f
      in if d < 1 / 2 then f else if 1 / 2 < d then f + 1 else if even f then f else f + 1)"

text \<open>The exponent \<open>e\<close> of a positive number \<open>x\<close>, with \<open>2^e \<le> x < 2^(e+1)\<close>, found from the
  bit lengths of numerator and denominator.\<close>

definition binade :: "rat \<Rightarrow> int" where
  "binade x =
     (let (p, q) = quotient_of x; d = bitlen p - bitlen q
      in if 2 powi d \<le> x then d else d - 1)"

text \<open>The binary64 value of an exact result: 53 significant bits, so between \<open>2^e\<close> and
  \<open>2^(e+1)\<close> the values are the multiples of \<open>2^(e-52)\<close>; rounding is to the nearest value,
  a tie going to the even multiple.\<close>

definition roundToDouble :: "rat \<Rightarrow> rat" where
  "roundToDouble x =
     (if x = 0 then 0
      else let ulp = 2 powi (binade \<bar>x\<bar> - 52)
           in sgn x * of_int (roundHalfEven (\<bar>x\<bar> / ulp)) * ulp)"

text \<open>The operators \<^verbatim>\<open>+\<close>, \<^verbatim>\<open>*\<close> and \<^verbatim>\<open>/\<close> on numbers.\<close>

definition js_add :: "rat \<Rightarrow> rat \<Rightarrow> rat" where
  "js_add a b = roundToDouble (a + b)"

definition js_mul :: "rat \<Rightarrow> rat \<Rightarrow> rat" where
  "js_mul a b = roundToDouble (a * b)"

definition js_div :: "rat \<Rightarrow> rat \<Rightarrow> rat" where
  "js_div a b = roundToDouble (a / b)"

text \<open>The number that a numeral denotes: the binary64 value nearest to the integer, which is
  an integer again.\<close>

definition doubleOfInt :: "int \<Rightarrow> int" where
  "doubleOfInt n = \<lfloor>roundToDouble (of_int n)\<rfloor>"


subsection \<open>Arrays and numbers\<close>

text \<open>\<^verbatim>\<open>xs[i]\<close>: the element, or \<^verbatim>\<open>undefined\<close> when \<^term>\<open>i\<close> is not an index of the array
  (the index \<^verbatim>\<open>-1\<close> of a failed \<^verbatim>\<open>indexOf\<close> included).\<close>

definition js_nth :: "'a list \<Rightarrow> int \<Rightarrow> 'a option" where
  "js_nth xs i = (if 0 \<le> i \<and> i < int (length xs) then Some (xs ! nat i) else None)"

text \<open>\<^verbatim>\<open>Math.round\<close>: the integer nearest to the number it is given, a tie going up; the
  result is exact. \<^verbatim>\<open>Math.ceil\<close> is \<^term>\<open>ceiling\<close> and \<^verbatim>\<open>Math.floor\<close> is \<^term>\<open>floor\<close>.\<close>

definition Math_round :: "rat \<Rightarrow> int" where
  "Math_round x = \<lfloor>x + 1 / 2\<rfloor>"

subsection \<open>calculateStatistics and percentile\<close>

record statistics =
  min_stat :: int
  max_stat :: int
  avg :: int
  p90 :: "int option"
  p95 :: "int option"
  p99 :: "int option"

text \<open>\<^verbatim>\<open>percentile(sortedArray, p)\<close>. The result is the array element read at the computed
  index, so it is \<^term>\<open>None\<close> if that read were out of range. The index is written with the
  exact product \<open>p / 100 * n\<close>: for \<open>p\<close> in 90, 95, 99 and a length below \<open>2^32\<close> the rounding
  of \<^verbatim>\<open>p / 100\<close> and of the product to binary64 does not change the ceiling.\<close>

definition percentile_index :: "nat \<Rightarrow> int \<Rightarrow> int" where
  "percentile_index n p = \<lceil>(real_of_int p / 100) * real n\<rceil> - 1"

definition percentile :: "int list \<Rightarrow> int \<Rightarrow> int option" where
  "percentile sortedArray p =
     (if length sortedArray = 0 then Some 0
      else js_nth sortedArray (max 0 (percentile_index (length sortedArray) p)))"

text \<open>\<^verbatim>\<open>values.slice().sort((a, b) => a - b)\<close> is the ascending sort; \<^verbatim>\<open>reduce\<close> with
  \<^verbatim>\<open>+\<close> from 0 is a left fold, each sum rounded to a binary64 value, and so is the quotient
  \<^verbatim>\<open>sum / sorted.length\<close> that \<^verbatim>\<open>Math.round\<close> is given. The values are the integers that
  \<^verbatim>\<open>parseInt\<close> returned.\<close>

definition calculateStatistics :: "int list \<Rightarrow> statistics" where
  "calculateStatistics values =
     (if length values = 0
      then \<lparr>min_stat = 0, max_stat = 0, avg = 0, p90 = Some 0, p95 = Some 0, p99 = Some 0\<rparr>
      else
        let sorted = sort values;
            sum = foldl (\<lambda>a b. js_add a (of_int b)) 0 sorted
        in \<lparr>min_stat = hd sorted,
            max_stat = last sorted,
            avg = Math_round (js_div sum (of_nat (length sorted))),
            p90 = percentile sorted 90,
            p95 = percentile sorted 95,
            p99 = percentile sorted 99\<rparr>)"


subsection \<open>Reading the fields of a row\<close>

text \<open>\<^verbatim>\<open>csvContent.split('\n')\<close>: the segments between line feeds; the empty text has one
  empty segment.\<close>

fun split_lines_loop :: "string \<Rightarrow> string \<Rightarrow> string list" where
  "split_lines_loop [] current = [current]"
| "split_lines_loop (c # rest) current =
     (if c = CHR 0x0A then current # split_lines_loop rest []
      else split_lines_loop rest (current @ [c]))"

definition split_lines :: "string \<Rightarrow> string list" where
  "split_lines csvContent = split_lines_loop csvContent []"

text \<open>\<^verbatim>\<open>headers.indexOf(x)\<close>: the first index of \<^term>\<open>x\<close>, or \<^verbatim>\<open>-1\<close>.\<close>

fun indexOf :: "'a list \<Rightarrow> 'a \<Rightarrow> int" where
  "indexOf [] x = -1"
| "indexOf (y # ys) x = (if y = x then 0 else (let i = indexOf ys x in if i = -1 then -1 else i + 1))"

text \<open>
  \<^verbatim>\<open>parseInt(s)\<close> with no radix: leading white space is skipped, then an optional sign, then
  \<^verbatim>\<open>0x\<close> or \<^verbatim>\<open>0X\<close> selects base 16, and the longest run of digits of the base is read.
  No digit gives \<^verbatim>\<open>NaN\<close>, here \<^term>\<open>None\<close>. The value is the binary64 number nearest to the
  integer that the digits denote.
\<close>

definition digitValue :: "char \<Rightarrow> int" where
  "digitValue c =
     (if c \<in> set ''0123456789'' then int (of_char c) - 48
      else if c \<in> set ''abcdef'' then int (of_char c) - 87
      else int (of_char c) - 55)"

definition isHexDigit :: "char \<Rightarrow> bool" where
  "isHexDigit c = (c \<in> set ''0123456789abcdefABCDEF'')"

definition numberOfDigits :: "int \<Rightarrow> string \<Rightarrow> int" where
  "numberOfDigits radix ds = foldl (\<lambda>n c. n * radix + digitValue c) 0 ds"

definition parseInt :: "string \<Rightarrow> int option" where
  "parseInt s =
     (let s1 = dropWhile isSpace s;
          sign = (if take 1 s1 = ''-'' then -1 else 1);
          s2 = (if take 1 s1 = ''-'' \<or> take 1 s1 = ''+'' then drop 1 s1 else s1);
          hex = (take 2 s2 = ''0x'' \<or> take 2 s2 = ''0X'');
          s3 = (if hex then drop 2 s2 else s2);
          ds = (if hex then takeWhile isHexDigit s3 else takeWhile isDigit s3)
      in if ds = [] then None
         else Some (doubleOfInt (sign * numberOfDigits (if hex then 16 else 10) ds)))"

text \<open>\<^verbatim>\<open>parseInt(values[i]) || 0\<close>: \<^verbatim>\<open>undefined\<close> reads as the text \<^verbatim>\<open>undefined\<close>, which
  has no digit; \<^verbatim>\<open>NaN\<close> and 0 both give 0.\<close>

definition parseIntOr0 :: "string option \<Rightarrow> int" where
  "parseIntOr0 v = (case v of None \<Rightarrow> 0 | Some s \<Rightarrow> (case parseInt s of None \<Rightarrow> 0 | Some n \<Rightarrow> n))"

text \<open>\<^verbatim>\<open>values[i] || ''\<close>.\<close>

definition stringOrEmpty :: "string option \<Rightarrow> string" where
  "stringOrEmpty v = (case v of None \<Rightarrow> [] | Some s \<Rightarrow> s)"

subsection \<open>The data of parseJMeterResults\<close>

record sample =
  label :: string
  elapsed :: int
  success :: bool
  responseCode :: string
  responseMessage :: string
  dataType :: string
  threadName :: string
  failureMessage :: string
  latency :: int
  connect :: int
  bytes :: int
  url :: string
  timestamp :: int

text \<open>The column indices that \<^verbatim>\<open>indexOf\<close> finds in the header.\<close>

record header_indices =
  labelIndex :: int
  elapsedIndex :: int
  successIndex :: int
  responseCodeIndex :: int
  responseMessageIndex :: int
  dataTypeIndex :: int
  latencyIndex :: int
  connectIndex :: int
  bytesIndex :: int
  urlIndex :: int
  threadGroupIndex :: int
  failureMessageIndex :: int
  timestampIndex :: int

text \<open>An entry of \<^verbatim>\<open>errors\<close>.\<close>

record error_entry =
  errorLabel :: string
  errorResponseCode :: string
  errorResponseMessage :: string
  errorFailureMessage :: string

text \<open>
  An entry of \<^verbatim>\<open>transactions\<close>. \<^verbatim>\<open>childRequestsByExecution\<close> is assigned by index, so it
  is an array that may have holes: \<^term>\<open>None\<close> is a hole (\<^verbatim>\<open>undefined\<close>).
\<close>

record transaction =
  name :: string
  samples :: "sample list"
  totalSamples :: nat
  successCount :: nat
  errorCount :: nat
  childRequests :: "sample list"
  childRequestsByExecution :: "sample list option list"

text \<open>The same entry once the statistics are attached after the scan.\<close>

record finalized_transaction = transaction +
  stats :: statistics
  errorRate :: string
  uniqueChildRequests :: "sample list"

text \<open>The local variables of the scanning loop. \<^verbatim>\<open>minTimestamp\<close> starts at \<^verbatim>\<open>Infinity\<close>,
  here \<^term>\<open>None\<close>; \<^verbatim>\<open>currentTransaction\<close> is a name or \<^verbatim>\<open>null\<close>.\<close>

record scan_state =
  controllerSamples :: "sample list"
  transactions :: "string \<rightharpoonup> transaction"
  allSamples :: "sample list"
  errors :: "error_entry list"
  minTimestamp :: "int option"
  maxTimestamp :: int
  totalSuccessCount :: nat
  totalErrorCount :: nat
  currentTransaction :: "string option"
  currentTransactionExecutionIndex :: int
  expectedChildRequestCount :: int
  collectedChildRequestCount :: int

datatype js_value = JSNumber int | JSString string

text \<open>The fields of the returned object that come from the scan. The formatted dates, the
  duration, \<^verbatim>\<open>userConfig\<close> and \<^verbatim>\<open>errorAnalysis\<close> are computed from these by other
  functions and are not part of this record; \<^verbatim>\<open>resultErrors\<close> is the list handed to
  \<^verbatim>\<open>analyzeErrors\<close>.\<close>

record aggregated_result =
  resultTotalSamples :: nat
  resultSamples :: "sample list"
  resultTransactions :: "string \<rightharpoonup> finalized_transaction"
  startTimestamp :: "int option"
  endTimestamp :: int
  passPercentage :: js_value
  totalRequests :: nat
  resultSuccessCount :: nat
  resultErrorCount :: nat
  resultErrors :: "error_entry list"

datatype js_exception = TypeError


subsection \<open>Classifying a row\<close>

definition transactionMarker :: string where
  "transactionMarker = ''Number of samples in transaction''"

text \<open>\<^verbatim>\<open>isTransactionController\<close> and \<^verbatim>\<open>isIndividualRequest\<close> of the error tracking; a
  string is truthy when it is not empty.\<close>

definition isTransactionController :: "sample \<Rightarrow> bool" where
  "isTransactionController s =
     (dataType s = [] \<and> responseMessage s \<noteq> [] \<and> includes_str (responseMessage s) transactionMarker)"

definition isIndividualRequest :: "sample \<Rightarrow> bool" where
  "isIndividualRequest s =
     (dataType s \<noteq> [] \<or> (url s \<noteq> [] \<and> url s \<noteq> ''null'' \<and> url s \<noteq> []))"

text \<open>
  \<^verbatim>\<open>responseMessage.match(/Number of samples in transaction\s*:\s*(\d+)/)\<close>: group 1 of the
  leftmost match, or \<^term>\<open>None\<close>. White space, the colon and the digits are disjoint classes,
  so the greedy reading at a position is the only one there.
\<close>

definition matchCountAt :: "string \<Rightarrow> string option" where
  "matchCountAt s =
     (if prefix transactionMarker s then
        (case dropWhile isSpace (drop (length transactionMarker) s) of
           [] \<Rightarrow> None
         | c # r \<Rightarrow>
             if c = CHR '':'' then
               (let ds = takeWhile isDigit (dropWhile isSpace r)
                in if ds = [] then None else Some ds)
             else None)
      else None)"

fun matchCount :: "string \<Rightarrow> string option" where
  "matchCount [] = matchCountAt []"
| "matchCount (c # s) =
     (case matchCountAt (c # s) of Some ds \<Rightarrow> Some ds | None \<Rightarrow> matchCount s)"

text \<open>\<^verbatim>\<open>countMatch ? parseInt(countMatch[1]) : 0\<close>. Group 1 is a run of decimal digits, which
  \<^verbatim>\<open>parseInt\<close> always reads.\<close>

definition expectedCountOf :: "string \<Rightarrow> int" where
  "expectedCountOf message =
     (case matchCount message of
        None \<Rightarrow> 0
      | Some ds \<Rightarrow> (case parseInt ds of Some n \<Rightarrow> n | None \<Rightarrow> 0))"

subsection \<open>The transactions object\<close>

text \<open>
  \<^verbatim>\<open>transactions\<close> is a plain object, so reading one of these keys finds a member of
  \<^verbatim>\<open>Object.prototype\<close>: a truthy value that is no transaction entry.
\<close>

definition objectPrototypeKeys :: "string list" where
  "objectPrototypeKeys =
     [''constructor'', ''__defineGetter__'', ''__defineSetter__'', ''hasOwnProperty'',
      ''__lookupGetter__'', ''__lookupSetter__'', ''isPrototypeOf'', ''propertyIsEnumerable'',
      ''toString'', ''valueOf'', ''__proto__'', ''toLocaleString'']"

definition newTransaction :: "string \<Rightarrow> transaction" where
  "newTransaction transactionName =
     \<lparr>name = transactionName, samples = [], totalSamples = 0, successCount = 0, errorCount = 0,
      childRequests = [], childRequestsByExecution = []\<rparr>"

text \<open>\<^verbatim>\<open>xs[i] = v\<close> on an array: inside the array the element is replaced, beyond its end
  the array grows and the skipped indices are holes.\<close>

definition js_assign :: "'a option list \<Rightarrow> nat \<Rightarrow> 'a \<Rightarrow> 'a option list" where
  "js_assign xs i v =
     (if i < length xs then xs[i := Some v]
      else xs @ replicate (i - length xs) None @ [Some v])"

text \<open>The key that \<^verbatim>\<open>transactions[currentTransaction]\<close> reads: \<^verbatim>\<open>null\<close> is the key
  \<^verbatim>\<open>"null"\<close>.\<close>

definition keyOf :: "string option \<Rightarrow> string" where
  "keyOf current = (case current of None \<Rightarrow> ''null'' | Some n \<Rightarrow> n)"

subsection \<open>One row of the scan\<close>

definition makeSample :: "header_indices \<Rightarrow> string list \<Rightarrow> sample" where
  "makeSample h values =
     \<lparr>label = stringOrEmpty (js_nth values (labelIndex h)),
      elapsed = parseIntOr0 (js_nth values (elapsedIndex h)),
      success = (js_nth values (successIndex h) = Some ''true''),
      responseCode = stringOrEmpty (js_nth values (responseCodeIndex h)),
      responseMessage = stringOrEmpty (js_nth values (responseMessageIndex h)),
      dataType = stringOrEmpty (js_nth values (dataTypeIndex h)),
      threadName = stringOrEmpty (js_nth values (threadGroupIndex h)),
      failureMessage = stringOrEmpty (js_nth values (failureMessageIndex h)),
      latency = parseIntOr0 (js_nth values (latencyIndex h)),
      connect = parseIntOr0 (js_nth values (connectIndex h)),
      bytes = parseIntOr0 (js_nth values (bytesIndex h)),
      url = stringOrEmpty (js_nth values (urlIndex h)),
      timestamp = parseIntOr0 (js_nth values (timestampIndex h))\<rparr>"

text \<open>Lines 1131 to 1137: the sample joins \<^verbatim>\<open>allSamples\<close> and moves the time bounds.\<close>

definition trackTimestamps :: "scan_state \<Rightarrow> sample \<Rightarrow> scan_state" where
  "trackTimestamps st s =
     (if timestamp s > 0 then
        st\<lparr>minTimestamp := Some (case minTimestamp st of None \<Rightarrow> timestamp s
                                                          | Some m \<Rightarrow> min m (timestamp s)),
           maxTimestamp := max (maxTimestamp st) (timestamp s + elapsed s)\<rparr>
      else st)"

text \<open>Lines 1143 to 1156: the error list and the two global counters.\<close>

definition trackErrors :: "scan_state \<Rightarrow> sample \<Rightarrow> scan_state" where
  "trackErrors st s =
     (if \<not> success s \<and> isIndividualRequest s \<and> \<not> isTransactionController s then
        st\<lparr>errors := errors st @ [\<lparr>errorLabel = label s, errorResponseCode = responseCode s,
                                   errorResponseMessage = responseMessage s,
                                   errorFailureMessage = failureMessage s\<rparr>],
           totalErrorCount := totalErrorCount st + 1\<rparr>
      else if success s then st\<lparr>totalSuccessCount := totalSuccessCount st + 1\<rparr>
      else st)"

text \<open>
  Lines 1160 to 1199, the branch of a transaction controller row. For a label that is a
  key of \<^verbatim>\<open>Object.prototype\<close> no entry is created and \<^verbatim>\<open>.samples.length\<close> throws.
\<close>

definition groupController :: "scan_state \<Rightarrow> sample \<Rightarrow> js_exception + scan_state" where
  "groupController st s =
     (let expectedCount = expectedCountOf (responseMessage s);
          transactionName = label s
      in if transactionName \<in> set objectPrototypeKeys then Inl TypeError
         else
           let t0 = (case transactions st transactionName of
                       None \<Rightarrow> newTransaction transactionName
                     | Some t \<Rightarrow> t);
               executionIndex = length (samples t0);
               t1 = t0\<lparr>samples := samples t0 @ [s], totalSamples := totalSamples t0 + 1\<rparr>;
               t2 = (if success s then t1\<lparr>successCount := successCount t1 + 1\<rparr>
                     else t1\<lparr>errorCount := errorCount t1 + 1\<rparr>);
               t3 = (case js_nth (childRequestsByExecution t2) (int executionIndex) of
                       Some (Some _) \<Rightarrow> t2
                     | _ \<Rightarrow> t2\<lparr>childRequestsByExecution :=
                                 js_assign (childRequestsByExecution t2) executionIndex []\<rparr>)
           in Inr (st\<lparr>controllerSamples := controllerSamples st @ [s],
                      transactions := (transactions st)(transactionName \<mapsto> t3),
                      currentTransaction := Some transactionName,
                      currentTransactionExecutionIndex := int executionIndex,
                      expectedChildRequestCount := expectedCount,
                      collectedChildRequestCount := 0\<rparr>))"

definition resetCurrent :: "scan_state \<Rightarrow> scan_state" where
  "resetCurrent st =
     st\<lparr>currentTransaction := None, currentTransactionExecutionIndex := -1,
        expectedChildRequestCount := 0, collectedChildRequestCount := 0\<rparr>"

text \<open>
  Lines 1201 to 1229, the branch taken while a transaction is current. Pushing to a member
  that is not there (\<^verbatim>\<open>undefined.push\<close>) throws.
\<close>

definition collectChild :: "scan_state \<Rightarrow> sample \<Rightarrow> js_exception + scan_state" where
  "collectChild st0 s =
     (let st = (if collectedChildRequestCount st0 \<ge> expectedChildRequestCount st0
                then resetCurrent st0 else st0);
          isChildRequest =
            ((dataType s \<noteq> [] \<or> (url s \<noteq> [] \<and> url s \<noteq> ''null'' \<and> url s \<noteq> []))
             \<and> \<not> (dataType s = [] \<and> responseMessage s \<noteq> []
                    \<and> includes_str (responseMessage s) transactionMarker));
          key = keyOf (currentTransaction st)
      in if isChildRequest
            \<and> (key \<in> set objectPrototypeKeys \<or> transactions st key \<noteq> None)
            \<and> collectedChildRequestCount st < expectedChildRequestCount st
         then
           (case transactions st key of
              None \<Rightarrow> Inl TypeError
            | Some t \<Rightarrow>
                (case js_nth (childRequestsByExecution t) (currentTransactionExecutionIndex st) of
                   Some (Some children) \<Rightarrow>
                     Inr (st\<lparr>transactions := (transactions st)(key \<mapsto>
                               t\<lparr>childRequests := childRequests t @ [s],
                                 childRequestsByExecution :=
                                   (childRequestsByExecution t)
                                     [nat (currentTransactionExecutionIndex st) := Some (children @ [s])]\<rparr>),
                            collectedChildRequestCount := collectedChildRequestCount st + 1\<rparr>)
                 | _ \<Rightarrow> Inl TypeError))
         else if dataType s = [] \<and> responseMessage s \<noteq> []
                 \<and> includes_str (responseMessage s) transactionMarker
         then Inr (resetCurrent st)
         else Inr st)"

text \<open>The body of the loop for a row that has enough fields (lines 1114 to 1230).\<close>

definition processSample :: "scan_state \<Rightarrow> sample \<Rightarrow> js_exception + scan_state" where
  "processSample st0 s =
     (let st = trackErrors (trackTimestamps (st0\<lparr>allSamples := allSamples st0 @ [s]\<rparr>) s) s
      in if dataType s = [] \<and> includes_str (responseMessage s) transactionMarker
         then groupController st s
         else if (currentTransaction st \<noteq> None \<and> currentTransaction st \<noteq> Some [])
                 \<and> currentTransactionExecutionIndex st \<ge> 0
         then collectChild st s
         else Inr st)"

text \<open>One line of the file (lines 1112 and 1113): a row with too few fields is passed over.\<close>

definition processLine :: "header_indices \<Rightarrow> scan_state \<Rightarrow> string \<Rightarrow> js_exception + scan_state" where
  "processLine h st line =
     (let values = parseCSVLine line
      in if int (length values) > max (labelIndex h) (elapsedIndex h)
         then processSample st (makeSample h values)
         else Inr st)"

fun processLines :: "header_indices \<Rightarrow> scan_state \<Rightarrow> string list \<Rightarrow> js_exception + scan_state" where
  "processLines h st [] = Inr st"
| "processLines h st (line # rest) =
     (case processLine h st line of
        Inl e \<Rightarrow> Inl e
      | Inr st' \<Rightarrow> processLines h st' rest)"

subsection \<open>The whole scan\<close>

definition headerIndices :: "string list \<Rightarrow> header_indices" where
  "headerIndices headers =
     \<lparr>labelIndex = indexOf headers ''label'',
      elapsedIndex = indexOf headers ''elapsed'',
      successIndex = indexOf headers ''success'',
      responseCodeIndex = indexOf headers ''responseCode'',
      responseMessageIndex = indexOf headers ''responseMessage'',
      dataTypeIndex = indexOf headers ''dataType'',
      latencyIndex = indexOf headers ''Latency'',
      connectIndex = indexOf headers ''Connect'',
      bytesIndex = indexOf headers ''bytes'',
      urlIndex = indexOf headers ''URL'',
      threadGroupIndex = indexOf headers ''threadName'',
      failureMessageIndex = indexOf headers ''failureMessage'',
      timestampIndex = indexOf headers ''timeStamp''\<rparr>"

definition initialState :: scan_state where
  "initialState =
     \<lparr>controllerSamples = [], transactions = Map.empty, allSamples = [], errors = [],
      minTimestamp = None, maxTimestamp = 0, totalSuccessCount = 0, totalErrorCount = 0,
      currentTransaction = None, currentTransactionExecutionIndex = -1,
      expectedChildRequestCount = 0, collectedChildRequestCount = 0\<rparr>"

text \<open>\<^verbatim>\<open>csvContent.split('\n').filter((line) => line.trim())\<close>.\<close>

definition nonBlankLines :: "string \<Rightarrow> string list" where
  "nonBlankLines csvContent = filter (\<lambda>line. trim line \<noteq> []) (split_lines csvContent)"

text \<open>
  Lines 1068 to 1232 on the text of the file: \<^term>\<open>Inr None\<close> is \<^verbatim>\<open>return null\<close>,
  \<^term>\<open>Inr (Some st)\<close> the variables when the loop ends, \<^term>\<open>Inl e\<close> an exception.
\<close>

definition scanCSV :: "string \<Rightarrow> js_exception + scan_state option" where
  "scanCSV csvContent =
     (case nonBlankLines csvContent of
        header # row # rows \<Rightarrow>
          (let h = headerIndices (parseCSVLine header)
           in if labelIndex h = -1 \<or> elapsedIndex h = -1 then Inr None
              else (case processLines h initialState (row # rows) of
                      Inl e \<Rightarrow> Inl e
                    | Inr st \<Rightarrow> Inr (Some st)))
      | _ \<Rightarrow> Inr None)"

subsection \<open>After the scan\<close>

definition digitChar :: "nat \<Rightarrow> char" where
  "digitChar d = ''0123456789'' ! d"

fun decimalDigits :: "nat \<Rightarrow> string" where
  "decimalDigits n = (if n < 10 then [digitChar n] else decimalDigits (n div 10) @ [digitChar (n mod 10)])"

declare decimalDigits.simps [simp del]

text \<open>
  \<^verbatim>\<open>x.toFixed(2)\<close> for \<open>|x| < 10^21\<close>: the integer \<open>n\<close> nearest to \<open>100 |x|\<close>, the larger
  one at a tie, written with its last two digits after the point. The digits are those of the
  exact value of the number \<open>x\<close>, which is a binary64 value where the code calls it.
\<close>

definition toFixed2 :: "rat \<Rightarrow> string" where
  "toFixed2 x =
     (let n = nat \<lfloor>\<bar>x\<bar> * 100 + 1 / 2\<rfloor>
      in (if x < 0 then ''-'' else []) @ decimalDigits (n div 100) @ ''.''
           @ [digitChar (n mod 100 div 10), digitChar (n mod 10)])"

text \<open>The first request of each label, in order (lines 1243 to 1251).\<close>

fun uniqueByLabel :: "string list \<Rightarrow> sample list \<Rightarrow> sample list" where
  "uniqueByLabel seenLabels [] = []"
| "uniqueByLabel seenLabels (req # reqs) =
     (if label req \<in> set seenLabels then uniqueByLabel seenLabels reqs
      else req # uniqueByLabel (seenLabels @ [label req]) reqs)"

definition finalizeTransaction :: "transaction \<Rightarrow> finalized_transaction" where
  "finalizeTransaction t =
     transaction.extend t
       \<lparr>stats = calculateStatistics (map elapsed (samples t)),
        errorRate = toFixed2 (js_mul (js_div (of_nat (errorCount t)) (of_nat (totalSamples t))) 100),
        uniqueChildRequests = uniqueByLabel [] (childRequests t)\<rparr>"

definition finalizeResult :: "scan_state \<Rightarrow> aggregated_result" where
  "finalizeResult st =
     (let totalRequestCount = totalSuccessCount st + totalErrorCount st
      in \<lparr>resultTotalSamples = length (controllerSamples st),
          resultSamples = controllerSamples st,
          resultTransactions = (\<lambda>k. map_option finalizeTransaction (transactions st k)),
          startTimestamp = minTimestamp st,
          endTimestamp = maxTimestamp st,
          passPercentage =
            (if totalRequestCount > 0
             then JSString (toFixed2 (js_mul (js_div (of_nat (totalSuccessCount st))
                                                     (of_nat totalRequestCount)) 100))
             else JSNumber 100),
          totalRequests = totalRequestCount,
          resultSuccessCount = totalSuccessCount st,
          resultErrorCount = totalErrorCount st,
          resultErrors = errors st\<rparr>)"

text \<open>
  \<^verbatim>\<open>parseJMeterResults\<close> from the text of the CSV file on. The whole body stands in a
  \<^verbatim>\<open>try\<close> whose \<^verbatim>\<open>catch\<close> returns \<^verbatim>\<open>null\<close>. Finding and reading the file, and the
  functions that depend on the configuration, are assumed to return.
\<close>

definition parseJMeterResults_body :: "string \<Rightarrow> js_exception + aggregated_result option" where
  "parseJMeterResults_body csvContent =
     (case scanCSV csvContent of
        Inl e \<Rightarrow> Inl e
      | Inr None \<Rightarrow> Inr None
      | Inr (Some st) \<Rightarrow> Inr (Some (finalizeResult st)))"

definition parseJMeterResults :: "string \<Rightarrow> aggregated_result option" where
  "parseJMeterResults csvContent =
     (case parseJMeterResults_body csvContent of Inl e \<Rightarrow> None | Inr r \<Rightarrow> r)"


subsection \<open>Invariants of the scan\<close>

text \<open>The two counters and the error list count samples of \<^verbatim>\<open>allSamples\<close>.\<close>

definition tallyInvariant :: "scan_state \<Rightarrow> bool" where
  "tallyInvariant st =
     (totalErrorCount st
        = length (filter (\<lambda>s. \<not> success s \<and> isIndividualRequest s \<and> \<not> isTransactionController s)
                         (allSamples st))
      \<and> errors st
        = map (\<lambda>s. \<lparr>errorLabel = label s, errorResponseCode = responseCode s,
                     errorResponseMessage = responseMessage s,
                     errorFailureMessage = failureMessage s\<rparr>)
              (filter (\<lambda>s. \<not> success s \<and> isIndividualRequest s \<and> \<not> isTransactionController s)
                      (allSamples st))
      \<and> totalSuccessCount st = length (filter success (allSamples st)))"

text \<open>Every execution of a transaction entry has its list of children, no longer than the
  count that the message of its controller row announces.\<close>

definition executionsBounded :: "'a transaction_scheme \<Rightarrow> bool" where
  "executionsBounded t =
     (length (childRequestsByExecution t) = length (samples t)
      \<and> (\<forall>i < length (samples t).
            \<exists>children. childRequestsByExecution t ! i = Some children
              \<and> int (length children) \<le> expectedCountOf (responseMessage (samples t ! i))))"

text \<open>While a transaction is current, the scan variables describe one of its executions.\<close>

definition captureInvariant :: "scan_state \<Rightarrow> bool" where
  "captureInvariant st =
     ((\<forall>k t. transactions st k = Some t \<longrightarrow> executionsBounded t)
      \<and> (\<forall>n. currentTransaction st = Some n \<longrightarrow>
            (\<exists>t children. transactions st n = Some t
               \<and> 0 \<le> currentTransactionExecutionIndex st
               \<and> nat (currentTransactionExecutionIndex st) < length (samples t)
               \<and> childRequestsByExecution t ! nat (currentTransactionExecutionIndex st) = Some children
               \<and> collectedChildRequestCount st = int (length children)
               \<and> expectedChildRequestCount st
                    = expectedCountOf (responseMessage (samples t ! nat (currentTransactionExecutionIndex st))))))"

subsection \<open>Example files and rows\<close>

text \<open>The file of the login scenario: the header, a controller row and a child row.\<close>

definition loginCSV :: string where
  "loginCSV =
     ''label,elapsed,success,responseCode,responseMessage,dataType,threadName,timeStamp'' @ [CHR 0x0A]
     @ ''Login,500,true,,Number of samples in transaction : 1,,,'' @ [CHR 0x0A]
     @ ''POST /login,480,true,,,text,Login 1-1,''"

text \<open>A file with a failed request, a successful row that is no request, and a successful
  controller row.\<close>

definition tallyCSV :: string where
  "tallyCSV =
     ''label,elapsed,success,dataType,responseMessage'' @ [CHR 0x0A]
     @ ''GET /a,10,false,text,'' @ [CHR 0x0A]
     @ ''note,20,true,,'' @ [CHR 0x0A]
     @ ''T,30,true,,Number of samples in transaction : 0''"

definition failedRequest :: sample where
  "failedRequest =
     \<lparr>label = ''GET /a'', elapsed = 10, success = False, responseCode = ''500'',
      responseMessage = ''Server Error'', dataType = ''text'', threadName = ''G 1-1'',
      failureMessage = [], latency = 0, connect = 0, bytes = 0, url = [], timestamp = 0\<rparr>"

text \<open>Malformed files: a header alone, a header with no \<^verbatim>\<open>label\<close> column, a controller row
  whose label is a key of \<^verbatim>\<open>Object.prototype\<close>, and a file none of whose rows counts as a
  request.\<close>

definition headerOnlyCSV :: string where
  "headerOnlyCSV = ''label,elapsed,success'' @ [CHR 0x0A] @ ''   '' @ [CHR 0x0A]"

definition noLabelCSV :: string where
  "noLabelCSV = ''name,elapsed'' @ [CHR 0x0A] @ ''a,1''"

definition prototypeKeyCSV :: string where
  "prototypeKeyCSV =
     ''label,elapsed,responseMessage'' @ [CHR 0x0A]
     @ ''constructor,1,Number of samples in transaction : 1''"

definition uncountedCSV :: string where
  "uncountedCSV = ''label,elapsed,success'' @ [CHR 0x0A] @ ''x,1,false''"

text \<open>Rows for the capture window: controllers that announce two children and none, and a
  request.\<close>

definition controllerOfTwo :: sample where
  "controllerOfTwo =
     \<lparr>label = ''Checkout'', elapsed = 900, success = True, responseCode = ''200'',
      responseMessage = ''Number of samples in transaction : 2, number of failing samples : 0'',
      dataType = [], threadName = ''G 1-1'', failureMessage = [], latency = 0, connect = 0,
      bytes = 0, url = [], timestamp = 0\<rparr>"

definition controllerOfNone :: sample where
  "controllerOfNone =
     \<lparr>label = ''Idle'', elapsed = 5, success = True, responseCode = ''200'',
      responseMessage = ''Number of samples in transaction : 0'',
      dataType = [], threadName = ''G 1-1'', failureMessage = [], latency = 0, connect = 0,
      bytes = 0, url = [], timestamp = 0\<rparr>"

definition requestRow :: sample where
  "requestRow =
     \<lparr>label = ''GET /cart'', elapsed = 40, success = True, responseCode = ''200'',
      responseMessage = ''OK'', dataType = ''text'', threadName = ''G 1-1'',
      failureMessage = [], latency = 0, connect = 0, bytes = 0, url = [], timestamp = 0\<rparr>"


text \<open>The files of the login scenario, for any content of the columns that the scenario does
  not fix: response code, thread name and time stamp of the controller row, response code,
  response message and time stamp of the child row.\<close>

definition loginScenarioCSV :: "string \<Rightarrow> string \<Rightarrow> string \<Rightarrow> string \<Rightarrow> string \<Rightarrow> string \<Rightarrow> string" where
  "loginScenarioCSV rc1 tn1 ts1 rc2 rm2 ts2 =
     ''label,elapsed,success,responseCode,responseMessage,dataType,threadName,timeStamp'' @ [CHR 0x0A]
     @ joinComma [''Login'', ''500'', ''true'', rc1, ''Number of samples in transaction : 1'', [], tn1, ts1]
     @ [CHR 0x0A]
     @ joinComma [''POST /login'', ''480'', ''true'', rc2, rm2, ''text'', ''Login 1-1'', ts2]"


subsection \<open>countThreadInstances\<close>

record user_type_config =
  key :: string
  displayName :: string
  threadGroupPatterns :: "string list option"

text \<open>A \<^verbatim>\<open>Set\<close> keeps its members in the order of their first insertion.\<close>

definition setAdd :: "'a list \<Rightarrow> 'a \<Rightarrow> 'a list" where
  "setAdd members x = (if x \<in> set members then members else members @ [x])"

definition newSet :: "'a list \<Rightarrow> 'a list" where
  "newSet xs = foldl setAdd [] xs"

text \<open>
  \<^verbatim>\<open>name.match(/^(.+?)\s*\d+-\d+$/)\<close>, group 1. The rest of the name after the lazy prefix
  has to be white space, digits, a dash and digits up to the end; the classes are disjoint,
  so there is one way to read it. The prefix is the shortest one, it has at least one
  character and no line terminator.
\<close>

definition restIsNumberDashNumber :: "string \<Rightarrow> bool" where
  "restIsNumberDashNumber r =
     (let r1 = dropWhile isSpace r
      in takeWhile isDigit r1 \<noteq> []
         \<and> (case dropWhile isDigit r1 of
               [] \<Rightarrow> False
             | c # r2 \<Rightarrow> c = CHR ''-'' \<and> r2 \<noteq> [] \<and> list_all isDigit r2))"

fun lazyPrefix :: "string \<Rightarrow> string \<Rightarrow> string option" where
  "lazyPrefix p [] = (if restIsNumberDashNumber [] then Some p else None)"
| "lazyPrefix p (c # r) =
     (if restIsNumberDashNumber (c # r) then Some p
      else if isLineTerminator c then None
      else lazyPrefix (p @ [c]) r)"

definition groupMatch :: "string \<Rightarrow> string option" where
  "groupMatch threadName' =
     (case threadName' of
        [] \<Rightarrow> None
      | c # r \<Rightarrow> if isLineTerminator c then None else lazyPrefix [c] r)"

text \<open>The key under which a thread name is filed in \<^verbatim>\<open>threadsByGroup\<close>.\<close>

definition groupNameOf :: "string \<Rightarrow> string" where
  "groupNameOf threadName' =
     (case groupMatch threadName' of Some g \<Rightarrow> trim g | None \<Rightarrow> threadName')"

text \<open>\<^verbatim>\<open>threadsByGroup\<close>, a \<^verbatim>\<open>Map\<close> from group names to sets of thread names, in insertion
  order.\<close>

definition groupThread :: "(string \<times> string list) list \<Rightarrow> string \<Rightarrow> (string \<times> string list) list" where
  "groupThread threadsByGroup threadName' =
     (let groupName = groupNameOf threadName';
          m = (if groupName \<in> set (map fst threadsByGroup) then threadsByGroup
               else threadsByGroup @ [(groupName, [])])
      in map (\<lambda>(k, threads). if k = groupName then (k, setAdd threads threadName') else (k, threads)) m)"

text \<open>
  \<^verbatim>\<open>name.match(/-(\d+)$/)\<close> and \<^verbatim>\<open>name.match(/\s+(\d+)$/)\<close>, group 1: the digits at the end of
  the name, when a dash, or white space, stands before them.
\<close>

definition trailingDigits :: "string \<Rightarrow> string" where
  "trailingDigits s = rev (takeWhile isDigit (rev s))"

definition beforeTrailingDigits :: "string \<Rightarrow> string" where
  "beforeTrailingDigits s = rev (dropWhile isDigit (rev s))"

definition dashNumberMatch :: "string \<Rightarrow> string option" where
  "dashNumberMatch s =
     (if trailingDigits s \<noteq> [] \<and> beforeTrailingDigits s \<noteq> []
         \<and> last (beforeTrailingDigits s) = CHR ''-''
      then Some (trailingDigits s) else None)"

definition spaceNumberMatch :: "string \<Rightarrow> string option" where
  "spaceNumberMatch s =
     (if trailingDigits s \<noteq> [] \<and> beforeTrailingDigits s \<noteq> []
         \<and> isSpace (last (beforeTrailingDigits s))
      then Some (trailingDigits s) else None)"

text \<open>\<^verbatim>\<open>parseInt(s, 10)\<close>: like \<^verbatim>\<open>parseInt\<close>, in base 10 only.\<close>

definition parseInt10 :: "string \<Rightarrow> int option" where
  "parseInt10 s =
     (let s1 = dropWhile isSpace s;
          sign = (if take 1 s1 = ''-'' then -1 else 1);
          s2 = (if take 1 s1 = ''-'' \<or> take 1 s1 = ''+'' then drop 1 s1 else s1);
          ds = takeWhile isDigit s2
      in if ds = [] then None else Some (doubleOfInt (sign * numberOfDigits 10 ds)))"

text \<open>The number of a thread name, \<^term>\<open>None\<close> for \<^verbatim>\<open>null\<close>. (\<^verbatim>\<open>parseInt\<close> reads a run of
  digits, so it gives no \<^verbatim>\<open>NaN\<close> here.)\<close>

definition threadNumber :: "string \<Rightarrow> int option" where
  "threadNumber name' =
     (case dashNumberMatch name' of
        Some ds \<Rightarrow> parseInt10 ds
      | None \<Rightarrow> (case spaceNumberMatch name' of Some ds \<Rightarrow> parseInt10 ds | None \<Rightarrow> None))"

text \<open>One group of the sum over several groups: the greatest thread number, or the number
  of names when no name has a number.\<close>

definition addGroupCount :: "int \<Rightarrow> string \<times> string list \<Rightarrow> int" where
  "addGroupCount totalCount entry =
     (case List.map_filter threadNumber (snd entry) of
        [] \<Rightarrow> totalCount + int (length (snd entry))
      | n # ns \<Rightarrow> totalCount + foldl max n ns)"

text \<open>The first timestamps of the runs of samples that a gap longer than
  \<^verbatim>\<open>EXECUTION_GAP_MS\<close> separates.\<close>

definition firstSampleStep :: "int \<Rightarrow> int list \<times> int \<Rightarrow> sample \<Rightarrow> int list \<times> int" where
  "firstSampleStep executionGapMs acc s =
     (if fst acc = [] \<or> timestamp s - snd acc > executionGapMs
      then (fst acc @ [timestamp s], timestamp s)
      else (fst acc, timestamp s))"

text \<open>Lines 626 to 641: the samples of the user type, by the thread group names of the JMX
  file when there are some, else by the configured patterns (or the display name).\<close>

definition matchingSamplesOf :: "sample list \<Rightarrow> user_type_config \<Rightarrow> string list option \<Rightarrow> sample list" where
  "matchingSamplesOf allSamples' userTypeConfig threadGroupNames =
     (case threadGroupNames of
        Some (g # gs) \<Rightarrow>
          filter (\<lambda>s. threadName s \<noteq> []
                       \<and> list_ex (\<lambda>groupName. includes_str (threadName s) groupName) (g # gs))
                 allSamples'
      | _ \<Rightarrow>
          (let patterns = (case threadGroupPatterns userTypeConfig of
                             Some ps \<Rightarrow> ps
                           | None \<Rightarrow> [displayName userTypeConfig])
           in filter (\<lambda>s. threadName s \<noteq> []
                           \<and> list_ex (\<lambda>pattern. includes_str (threadName s) pattern) patterns)
                     allSamples'))"

text \<open>Lines 643 to 768: the count for the matching samples. \<^verbatim>\<open>Math.max(...numbers)\<close> is
  only reached with a number in the list.\<close>

definition countMatching :: "int \<Rightarrow> int \<Rightarrow> sample list \<Rightarrow> int" where
  "countMatching rampUpWindowMs executionGapMs matchingSamples =
     (if matchingSamples = [] then 0
      else
        let uniqueThreadNames = newSet (map threadName matchingSamples);
            threadsByGroup = foldl groupThread [] uniqueThreadNames
        in if length threadsByGroup > 1 then foldl addGroupCount 0 threadsByGroup
           else
             (case List.map_filter threadNumber uniqueThreadNames of
                n # ns \<Rightarrow> foldl max n ns
              | [] \<Rightarrow>
                  if length uniqueThreadNames > 1 then int (length uniqueThreadNames)
                  else if length matchingSamples = 0 then 0
                  else
                    let samples' = sort_key timestamp matchingSamples;
                        firstSampleTimestamps =
                          fst (foldl (firstSampleStep executionGapMs) ([], 0) samples');
                        timeWindows =
                          newSet (map (\<lambda>ts. \<lfloor>js_div (of_int ts) (of_int rampUpWindowMs)\<rfloor>)
                                      firstSampleTimestamps)
                    in max (max (int (length timeWindows)) (int (length uniqueThreadNames))) 1))"

text \<open>\<^verbatim>\<open>countThreadInstances(userTypeConfig, threadGroupNames)\<close>; \<^verbatim>\<open>allSamples\<close> and the two
  durations are variables of the enclosing function, which replaces a duration of 0 by its
  default (10000 and 30000).\<close>

definition countThreadInstances ::
  "sample list \<Rightarrow> int \<Rightarrow> int \<Rightarrow> user_type_config \<Rightarrow> string list option \<Rightarrow> int" where
  "countThreadInstances allSamples' rampUpWindowMs executionGapMs userTypeConfig threadGroupNames =
     countMatching rampUpWindowMs executionGapMs
       (matchingSamplesOf allSamples' userTypeConfig threadGroupNames)"

text \<open>Samples of three threads of one group, and a sample of a thread numbered 0.\<close>

definition threadSample :: "string \<Rightarrow> int \<Rightarrow> sample" where
  "threadSample threadName' ts =
     \<lparr>label = ''GET /home'', elapsed = 100, success = True, responseCode = ''200'',
      responseMessage = ''OK'', dataType = ''text'', threadName = threadName',
      failureMessage = [], latency = 0, connect = 0, bytes = 0, url = [], timestamp = ts\<rparr>"

definition districtCoordinators :: user_type_config where
  "districtCoordinators =
     \<lparr>key = ''districtCoordinators'', displayName = ''District Coordinators'',
      threadGroupPatterns = Some [''District Coordinator'']\<rparr>"

text \<open>Every group of \<^verbatim>\<open>threadsByGroup\<close> holds at least one of the thread names.\<close>

definition groupsFilled :: "string set \<Rightarrow> (string \<times> string list) list \<Rightarrow> bool" where
  "groupsFilled names m = (\<forall>entry \<in> set m. snd entry \<noteq> [] \<and> set (snd entry) \<subseteq> names)"


section \<open>Properties of the rounding to binary64\<close>

lemma bitlen_powi:
  assumes "0 < p"
  shows "(2::rat) powi (bitlen p - 1) \<le> of_int p \<and> of_int p < (2::rat) powi (bitlen p)"
proof -
  have b: "2 ^ nat (bitlen p - 1) \<le> p \<and> p < 2 ^ nat (bitlen p)" using bitlen_bounds [OF assms] .
  have ge: "1 \<le> bitlen p" using assms bitlen_eq_zero_iff [of p] bitlen_nonneg [of p] by linarith
  have "(of_int (2 ^ nat (bitlen p - 1)) :: rat) \<le> of_int p" using b by (simp only: of_int_le_iff)
  then have l: "(2::rat) ^ nat (bitlen p - 1) \<le> of_int p" by simp
  have "(of_int p :: rat) < of_int (2 ^ nat (bitlen p))" using b by (simp only: of_int_less_iff)
  then have u: "of_int p < (2::rat) ^ nat (bitlen p)" by simp
  show ?thesis using l u ge by (simp add: power_int_nonneg_exp)
qed

text \<open>The exponent that \<^term>\<open>binade\<close> computes is the one of the number.\<close>

lemma binade_bounds:
  assumes "0 < x"
  shows "2 powi (binade x) \<le> x \<and> x < 2 powi (binade x + 1)"
proof -
  obtain p q where pq: "quotient_of x = (p, q)" by (cases "quotient_of x")
  have q: "0 < q" using quotient_of_denom_pos [OF pq] .
  have x: "x = of_int p / of_int q" using quotient_of_div [OF pq] .
  have p: "0 < p"
  proof (rule ccontr)
    assume "\<not> 0 < p"
    then have "(of_int p :: rat) \<le> 0" by simp
    then have "x \<le> 0" using q x by (simp add: divide_nonpos_pos)
    then show False using assms by simp
  qed
  define d where "d = bitlen p - bitlen q"
  have bp: "(2::rat) powi (bitlen p - 1) \<le> of_int p" "of_int p < (2::rat) powi (bitlen p)"
    using bitlen_powi [OF p] by simp_all
  have bq: "(2::rat) powi (bitlen q - 1) \<le> of_int q" "of_int q < (2::rat) powi (bitlen q)"
    using bitlen_powi [OF q] by simp_all
  have qpos: "(0::rat) < of_int q" using q by simp
  have up: "x < 2 powi (d + 1)"
  proof -
    have "2 powi (d + 1) * (2::rat) powi (bitlen q - 1) = 2 powi (bitlen p)"
      by (simp add: d_def power_int_add [symmetric])
    then have "of_int p < 2 powi (d + 1) * (2::rat) powi (bitlen q - 1)" using bp(2) by simp
    also have "\<dots> \<le> 2 powi (d + 1) * of_int q"
      using bq(1) by (intro mult_left_mono) simp_all
    finally show ?thesis using qpos by (simp add: x pos_divide_less_eq)
  qed
  have lo: "2 powi (d - 1) \<le> x"
  proof -
    have e: "2 powi (d - 1) * (2::rat) powi (bitlen q) = 2 powi (bitlen p - 1)"
      by (simp add: d_def power_int_add [symmetric])
    have "2 powi (d - 1) * of_int q \<le> 2 powi (d - 1) * (2::rat) powi (bitlen q)"
      using bq(2) by (intro mult_left_mono) simp_all
    also have "\<dots> \<le> of_int p" using bp(1) e by simp
    finally show ?thesis using qpos by (simp add: x pos_le_divide_eq)
  qed
  have b: "binade x = (if 2 powi d \<le> x then d else d - 1)"
    by (simp add: binade_def pq d_def Let_def)
  show ?thesis
  proof (cases "2 powi d \<le> x")
    case True
    then show ?thesis using up b by simp
  next
    case False
    then show ?thesis using lo b by simp
  qed
qed

lemma roundHalfEven_cases:
  "roundHalfEven y = \<lfloor>y\<rfloor> \<or> roundHalfEven y = \<lfloor>y\<rfloor> + 1"
  by (simp add: roundHalfEven_def Let_def)

lemma roundHalfEven_nearest: "\<bar>of_int (roundHalfEven y) - y\<bar> \<le> 1 / 2"
proof -
  have "of_int \<lfloor>y\<rfloor> \<le> y" "y < of_int \<lfloor>y\<rfloor> + 1" by linarith+
  then show ?thesis by (auto simp: roundHalfEven_def Let_def)
qed

lemma roundHalfEven_near:
  assumes "\<bar>y - of_int k\<bar> < 1 / 2"
  shows "roundHalfEven y = k"
proof -
  have "\<bar>of_int (roundHalfEven y) - y\<bar> \<le> 1 / 2" by (rule roundHalfEven_nearest)
  then have "\<bar>(of_int (roundHalfEven y) :: rat) - of_int k\<bar> < 1" using assms by linarith
  then have "\<bar>(of_int (roundHalfEven y - k) :: rat)\<bar> < 1" by simp
  then have "\<bar>roundHalfEven y - k\<bar> < 1" by (metis of_int_abs of_int_less_1_iff)
  then show ?thesis by simp
qed

lemma roundHalfEven_of_int [simp]: "roundHalfEven (of_int k) = k"
  by (rule roundHalfEven_near) simp

lemma roundHalfEven_nonneg: "0 \<le> y \<Longrightarrow> 0 \<le> roundHalfEven y"
  using roundHalfEven_cases [of y] by (auto simp: zero_le_floor le_floor_iff)

lemma roundToDouble_nonzero:
  assumes "x \<noteq> 0"
  shows "2 powi (binade \<bar>x\<bar>) \<le> \<bar>x\<bar>" and "\<bar>x\<bar> < 2 powi (binade \<bar>x\<bar> + 1)"
    and "roundToDouble x
           = sgn x * of_int (roundHalfEven (\<bar>x\<bar> / 2 powi (binade \<bar>x\<bar> - 52))) * 2 powi (binade \<bar>x\<bar> - 52)"
proof -
  have "0 < \<bar>x\<bar>" using assms by simp
  then show "2 powi (binade \<bar>x\<bar>) \<le> \<bar>x\<bar>" and "\<bar>x\<bar> < 2 powi (binade \<bar>x\<bar> + 1)"
    using binade_bounds [of "\<bar>x\<bar>"] by simp_all
  show "roundToDouble x
           = sgn x * of_int (roundHalfEven (\<bar>x\<bar> / 2 powi (binade \<bar>x\<bar> - 52))) * 2 powi (binade \<bar>x\<bar> - 52)"
    using assms by (simp add: roundToDouble_def Let_def)
qed

lemma roundToDouble_zero [simp]: "roundToDouble 0 = 0"
  by (simp add: roundToDouble_def)

text \<open>The relative error of a rounding is at most \<open>2^-53\<close>.\<close>

lemma roundToDouble_error: "\<bar>roundToDouble x - x\<bar> \<le> \<bar>x\<bar> / 2 ^ 53"
proof (cases "x = 0")
  case True
  then show ?thesis by simp
next
  case False
  define e where "e = binade \<bar>x\<bar>"
  define u :: rat where "u = 2 powi (e - 52)"
  define m where "m = roundHalfEven (\<bar>x\<bar> / u)"
  have upos: "0 < u" by (simp add: u_def)
  have lo: "2 powi e \<le> \<bar>x\<bar>" using roundToDouble_nonzero(1) [OF False] by (simp add: e_def)
  have r: "roundToDouble x = sgn x * of_int m * u"
    using roundToDouble_nonzero(3) [OF False] by (simp add: e_def u_def m_def)
  have near: "\<bar>of_int m - \<bar>x\<bar> / u\<bar> \<le> 1 / 2" unfolding m_def by (rule roundHalfEven_nearest)
  have "of_int m * u - \<bar>x\<bar> = (of_int m - \<bar>x\<bar> / u) * u" using upos by (simp add: field_simps)
  then have "\<bar>of_int m * u - \<bar>x\<bar>\<bar> = \<bar>of_int m - \<bar>x\<bar> / u\<bar> * u" using upos by (simp add: abs_mult)
  also have "\<dots> \<le> 1 / 2 * u" using near upos by (intro mult_right_mono) simp_all
  finally have d: "\<bar>of_int m * u - \<bar>x\<bar>\<bar> \<le> u / 2" by simp
  have "sgn x * (of_int m * u - \<bar>x\<bar>) = sgn x * of_int m * u - sgn x * \<bar>x\<bar>"
    by (simp only: right_diff_distrib mult.assoc)
  then have "roundToDouble x - x = sgn x * (of_int m * u - \<bar>x\<bar>)"
    by (simp only: r sgn_mult_abs)
  then have "\<bar>roundToDouble x - x\<bar> = \<bar>of_int m * u - \<bar>x\<bar>\<bar>"
    using False by (simp add: abs_mult abs_sgn_eq)
  then have a: "\<bar>roundToDouble x - x\<bar> \<le> u / 2" using d by simp
  have "u * 2 ^ 52 = 2 powi e"
    using power_int_add [of "2::rat" "e - 52" 52] by (simp add: u_def)
  then have "u * 2 ^ 52 \<le> \<bar>x\<bar>" using lo by simp
  then have "u / 2 \<le> \<bar>x\<bar> / 2 ^ 53" by (simp add: field_simps)
  then show ?thesis using a by linarith
qed

text \<open>A multiple of \<open>2^t\<close> below \<open>2^(t+53)\<close> is a binary64 value: rounding leaves it as it
  is. So every integer below \<open>2^53\<close> and every half of an integer below \<open>2^52\<close> is exact.\<close>

lemma roundToDouble_dyadic:
  assumes "x = of_int a * 2 powi t" and "\<bar>x\<bar> < 2 powi (t + 53)"
  shows "roundToDouble x = x"
proof (cases "x = 0")
  case True
  then show ?thesis by simp
next
  case False
  define e where "e = binade \<bar>x\<bar>"
  define u :: rat where "u = 2 powi (e - 52)"
  have upos: "0 < u" by (simp add: u_def)
  have lo: "2 powi e \<le> \<bar>x\<bar>" using roundToDouble_nonzero(1) [OF False] by (simp add: e_def)
  have r: "roundToDouble x = sgn x * of_int (roundHalfEven (\<bar>x\<bar> / u)) * u"
    using roundToDouble_nonzero(3) [OF False] by (simp add: e_def u_def)
  have "(2::rat) powi e < 2 powi (t + 53)" using lo assms(2) by simp
  then have "e < t + 53"
    using power_int_increasing [of "t + 53" e "2::rat"] by (cases "e < t + 53") simp_all
  then have k: "0 \<le> t - (e - 52)" by simp
  have "\<bar>x\<bar> / u = of_int \<bar>a\<bar> * (2 powi t / 2 powi (e - 52))"
    by (simp add: assms(1) u_def abs_mult)
  also have "2 powi t / (2::rat) powi (e - 52) = 2 powi (t - (e - 52))"
    by (simp add: power_int_diff)
  also have "\<dots> = 2 ^ nat (t - (e - 52))" using k by (simp only: power_int_nonneg_exp)
  also have "of_int \<bar>a\<bar> * (2::rat) ^ nat (t - (e - 52)) = of_int (\<bar>a\<bar> * 2 ^ nat (t - (e - 52)))" by simp
  finally have "\<bar>x\<bar> / u = of_int (\<bar>a\<bar> * 2 ^ nat (t - (e - 52)))" .
  then have "of_int (roundHalfEven (\<bar>x\<bar> / u)) = \<bar>x\<bar> / u" by (simp only: roundHalfEven_of_int)
  then have "roundToDouble x = sgn x * (\<bar>x\<bar> / u) * u" using r by simp
  also have "\<dots> = sgn x * \<bar>x\<bar>" using upos by simp
  finally show ?thesis by (simp add: sgn_mult_abs)
qed

lemma roundToDouble_of_int:
  assumes "\<bar>n\<bar> < 2 ^ 53"
  shows "roundToDouble (of_int n) = of_int n"
proof (rule roundToDouble_dyadic [where a = n and t = 0])
  show "(of_int n :: rat) = of_int n * 2 powi 0" by simp
  have "(of_int \<bar>n\<bar> :: rat) < of_int (2 ^ 53)" using assms by (simp only: of_int_less_iff)
  then show "\<bar>of_int n :: rat\<bar> < 2 powi (0 + 53)" by simp
qed

lemma roundToDouble_half_int:
  assumes "\<bar>of_int k / 2 :: rat\<bar> < 2 ^ 52"
  shows "roundToDouble (of_int k / 2) = of_int k / 2"
proof (rule roundToDouble_dyadic [where a = k and t = "-1"])
  show "(of_int k / 2 :: rat) = of_int k * 2 powi (- 1)" by (simp add: power_int_minus)
  show "\<bar>of_int k / 2 :: rat\<bar> < 2 powi (- 1 + 53)" using assms by simp
qed

lemma roundToDouble_nonneg:
  assumes "0 \<le> x"
  shows "0 \<le> roundToDouble x"
proof (cases "x = 0")
  case True
  then show ?thesis by simp
next
  case False
  then have "0 < x" using assms by simp
  then have "0 \<le> \<bar>x\<bar> / 2 powi (binade \<bar>x\<bar> - 52)" by simp
  then have "0 \<le> roundHalfEven (\<bar>x\<bar> / 2 powi (binade \<bar>x\<bar> - 52))" by (rule roundHalfEven_nonneg)
  then show ?thesis using \<open>0 < x\<close> roundToDouble_nonzero(3) [OF False] by simp
qed

lemma doubleOfInt_exact: "\<bar>n\<bar> < 2 ^ 53 \<Longrightarrow> doubleOfInt n = n"
  by (simp add: doubleOfInt_def roundToDouble_of_int)

lemma doubleOfInt_nonneg: "0 \<le> n \<Longrightarrow> 0 \<le> doubleOfInt n"
  using roundToDouble_nonneg [of "of_int n"] by (simp add: doubleOfInt_def)

text \<open>The quotient of an integer below \<open>2^52\<close> by an array length: the rounding of the quotient
  never crosses a half, so \<^verbatim>\<open>Math.round\<close> of the rounded quotient is the exact quotient rounded
  to the nearest integer.\<close>

lemma Math_round_js_div:
  assumes "\<bar>s\<bar> < 2 ^ 52" and "0 < n"
  shows "Math_round (js_div (of_int s) (of_nat n)) = \<lfloor>(of_int s / of_nat n :: rat) + 1 / 2\<rfloor>"
proof -
  define x :: rat where "x = of_int s / of_nat n"
  define k where "k = \<lfloor>x + 1 / 2\<rfloor>"
  define N :: rat where "N = of_nat n"
  have npos: "0 < N" using assms(2) by (simp add: N_def)
  have n1: "1 \<le> N" using assms(2) by (simp add: N_def Suc_le_eq)
  have xn: "x * N = of_int s" using npos by (simp add: x_def N_def)
  have "\<bar>x * N\<bar> = \<bar>x\<bar> * N" using npos by (simp add: abs_mult)
  then have ax: "\<bar>x\<bar> * N = of_int \<bar>s\<bar>" using xn by simp
  have "(of_int \<bar>s\<bar> :: rat) < of_int (2 ^ 52)" using assms(1) by (simp only: of_int_less_iff)
  then have s52: "\<bar>x\<bar> * N < 2 ^ 52" using ax by simp
  have "\<bar>x\<bar> * 1 \<le> \<bar>x\<bar> * N" using n1 by (intro mult_left_mono) simp_all
  then have x52: "\<bar>x\<bar> < 2 ^ 52" using s52 by simp
  have "\<bar>x\<bar> / 2 ^ 53 * (2 * N) = \<bar>x\<bar> * N / 2 ^ 52" by simp
  also have "\<dots> < 1" using s52 by (simp only: divide_less_eq_1_pos zero_less_power zero_less_numeral)
  finally have "\<bar>x\<bar> / 2 ^ 53 * (2 * N) < 1" .
  moreover have "0 < 2 * N" using npos by simp
  ultimately have "\<bar>x\<bar> / 2 ^ 53 < 1 / (2 * N)" by (simp only: pos_less_divide_eq)
  then have err: "\<bar>roundToDouble x - x\<bar> < 1 / (2 * N)"
    using roundToDouble_error [of x] by linarith
  have k1: "of_int k \<le> x + 1 / 2" and k2: "x + 1 / 2 < of_int k + 1"
    unfolding k_def by linarith+
  have mid: "(x + 1 / 2) * (2 * N) = of_int (2 * s + int n)"
    using xn by (simp add: algebra_simps N_def)
  have lower: "of_int k \<le> roundToDouble x + 1 / 2"
  proof (cases "of_int k = x + 1 / 2")
    case True
    then have xk: "x = of_int (2 * k - 1) / 2" by simp
    have "roundToDouble (of_int (2 * k - 1) / 2) = of_int (2 * k - 1) / 2"
      by (rule roundToDouble_half_int) (use x52 xk in simp)
    then have "roundToDouble x = x" by (simp only: flip: xk)
    then show ?thesis using k1 by simp
  next
    case False
    then have "of_int k < x + 1 / 2" using k1 by simp
    then have "of_int k * (2 * N) < (x + 1 / 2) * (2 * N)"
      using npos by (intro mult_strict_right_mono) simp_all
    then have "(of_int (k * (2 * int n)) :: rat) < of_int (2 * s + int n)"
      using mid by (simp add: N_def)
    then have "k * (2 * int n) < 2 * s + int n" by (simp only: of_int_less_iff)
    then have "k * (2 * int n) + 1 \<le> 2 * s + int n" by simp
    then have "(of_int (k * (2 * int n) + 1) :: rat) \<le> of_int (2 * s + int n)"
      by (simp only: of_int_le_iff)
    then have "of_int k * (2 * N) + 1 \<le> (x + 1 / 2) * (2 * N)"
      using mid by (simp add: N_def)
    then have "(of_int k + 1 / (2 * N)) * (2 * N) \<le> (x + 1 / 2) * (2 * N)"
      using npos by (simp add: algebra_simps)
    then have "of_int k + 1 / (2 * N) \<le> x + 1 / 2"
      using npos by (simp only: mult_le_cancel_right split: if_splits)
    then show ?thesis using err by linarith
  qed
  have upper: "roundToDouble x + 1 / 2 < of_int k + 1"
  proof -
    have "(x + 1 / 2) * (2 * N) < (of_int k + 1) * (2 * N)"
      using k2 npos by (intro mult_strict_right_mono) simp_all
    then have "(of_int (2 * s + int n) :: rat) < of_int ((k + 1) * (2 * int n))"
      using mid by (simp add: N_def)
    then have "2 * s + int n < (k + 1) * (2 * int n)" by (simp only: of_int_less_iff)
    then have "2 * s + int n + 1 \<le> (k + 1) * (2 * int n)" by simp
    then have "(of_int (2 * s + int n + 1) :: rat) \<le> of_int ((k + 1) * (2 * int n))"
      by (simp only: of_int_le_iff)
    then have "(x + 1 / 2) * (2 * N) + 1 \<le> (of_int k + 1) * (2 * N)"
      using mid by (simp add: N_def)
    then have "(x + 1 / 2 + 1 / (2 * N)) * (2 * N) \<le> (of_int k + 1) * (2 * N)"
      using npos by (simp add: algebra_simps)
    then have "x + 1 / 2 + 1 / (2 * N) \<le> of_int k + 1"
      using npos by (simp only: mult_le_cancel_right split: if_splits)
    then show ?thesis using err by linarith
  qed
  have "\<lfloor>roundToDouble x + 1 / 2\<rfloor> = k" using lower upper by (simp add: floor_unique)
  then show ?thesis by (simp add: Math_round_def js_div_def x_def k_def)
qed

text \<open>Integers whose absolute values add up to less than \<open>2^53\<close> are summed exactly.\<close>

lemma foldl_js_add_sum:
  "\<bar>a\<bar> + sum_list (map abs xs) < 2 ^ 53 \<Longrightarrow>
     foldl (\<lambda>a b. js_add a (of_int b)) (of_int a) xs = of_int (a + sum_list xs)"
proof (induction xs arbitrary: a)
  case Nil
  then show ?case by simp
next
  case (Cons b xs)
  have "0 \<le> sum_list (map abs xs)" by (rule sum_list_nonneg) auto
  then have "\<bar>a + b\<bar> < 2 ^ 53" using Cons.prems by simp
  then have r: "js_add (of_int a) (of_int b) = of_int (a + b)"
    using roundToDouble_of_int [of "a + b"] by (simp add: js_add_def)
  have "\<bar>a + b\<bar> + sum_list (map abs xs) < 2 ^ 53" using Cons.prems by simp
  then show ?case using Cons.IH [of "a + b"] r by (simp add: add.assoc)
qed

text \<open>A number within a relative distance of \<open>2^-54\<close> of an integer below \<open>2^53\<close> rounds to
  that integer.\<close>

lemma roundToDouble_near_int:
  assumes "0 < y" and "y < 2 ^ 53" and "\<bar>y - of_int K\<bar> \<le> y / 2 ^ 54"
  shows "roundToDouble y = of_int K"
proof -
  have ne: "y \<noteq> 0" using assms(1) by simp
  have ay: "\<bar>y\<bar> = y" using assms(1) by simp
  define e where "e = binade y"
  define u :: rat where "u = 2 powi (e - 52)"
  have upos: "0 < u" by (simp add: u_def)
  have lo: "2 powi e \<le> y" and hi: "y < 2 powi (e + 1)"
    using roundToDouble_nonzero(1, 2) [OF ne] by (simp_all add: e_def ay)
  have r: "roundToDouble y = of_int (roundHalfEven (y / u)) * u"
    using roundToDouble_nonzero(3) [OF ne] assms(1) by (simp add: e_def u_def ay)
  have "(2::rat) powi e < 2 powi 53" using lo assms(2) by simp
  then have "e < 53"
    using power_int_increasing [of 53 e "2::rat"] by (cases "e < 53") simp_all
  then have k: "0 \<le> 52 - e" by simp
  have "1 / u = 2 powi (52 - e)"
    using power_int_diff [of "2::rat" 0 "e - 52"] by (simp add: u_def)
  also have "\<dots> = 2 ^ nat (52 - e)" using k by (simp only: power_int_nonneg_exp)
  finally have iu: "1 / u = of_int (2 ^ nat (52 - e))" by simp
  have Ku: "of_int K / u = of_int (K * 2 ^ nat (52 - e))"
  proof -
    have "of_int K / u = of_int K * (1 / u)" by simp
    then show ?thesis unfolding iu by simp
  qed
  have "u * 2 ^ 53 = 2 powi (e + 1)"
    using power_int_add [of "2::rat" "e - 52" 53] by (simp add: u_def add.commute)
  then have "y < u * 2 ^ 53" using hi by simp
  then have "y / 2 ^ 54 < u / 2" by (simp add: field_simps)
  then have d: "\<bar>y - of_int K\<bar> < u / 2" using assms(3) by linarith
  have "y / u - of_int K / u = (y - of_int K) / u" by (simp add: diff_divide_distrib)
  then have "\<bar>y / u - of_int K / u\<bar> = \<bar>y - of_int K\<bar> / u" using upos by (simp add: abs_divide)
  also have "\<dots> < 1 / 2" using d upos by (simp add: pos_divide_less_eq)
  finally have "\<bar>y / u - of_int (K * 2 ^ nat (52 - e))\<bar> < 1 / 2" unfolding Ku .
  then have "roundHalfEven (y / u) = K * 2 ^ nat (52 - e)" by (rule roundHalfEven_near)
  then have "roundToDouble y = of_int K / u * u" unfolding r Ku by simp
  then show ?thesis using upos by simp
qed


text \<open>The product of a factor \<open>c\<close> near \<open>p / 100\<close> and an array length has, once rounded, the
  ceiling of the exact product \<open>p / 100 * n\<close>.\<close>

lemma ceiling_js_mul:
  assumes c: "\<bar>c * 100 - of_int p\<bar> * (2 ^ 54 + 1) \<le> of_int p"
    and p: "0 < p" "p \<le> 100" and n: "0 < n" "n < 2 ^ 32"
  shows "\<lceil>js_mul c (of_nat n)\<rceil> = \<lceil>(of_int p / 100 :: rat) * of_nat n\<rceil>"
proof -
  define N :: rat where "N = of_nat n"
  define x :: rat where "x = of_int p / 100 * N"
  define y :: rat where "y = c * N"
  define K where "K = \<lceil>x\<rceil>"
  have Npos: "0 < N" using n(1) by (simp add: N_def)
  have "(of_nat n :: rat) < of_nat (2 ^ 32)" using n(2) by (simp only: of_nat_less_iff)
  then have N32: "N < 2 ^ 32" by (simp add: N_def)
  have ppos: "(0::rat) < of_int p" using p(1) by simp
  have "(of_int p :: rat) \<le> of_int 100" using p(2) by (simp only: of_int_le_iff)
  then have p100: "(of_int p :: rat) \<le> 100" by simp
  have xpos: "0 < x" using ppos Npos by (simp add: x_def)
  have "x \<le> 1 * N" unfolding x_def using p100 Npos by (intro mult_right_mono) simp_all
  then have x32: "x < 2 ^ 32" using N32 by simp
  define w :: rat where "w = N / 100"
  define a :: rat where "a = \<bar>c * 100 - of_int p\<bar>"
  have wpos: "0 < w" using Npos by (simp add: w_def)
  have xw: "x = of_int p * w" by (simp add: x_def w_def)
  have yx: "y - x = (c * 100 - of_int p) * w" by (simp add: y_def x_def w_def algebra_simps)
  have "\<bar>(c * 100 - of_int p) * w\<bar> = \<bar>c * 100 - of_int p\<bar> * \<bar>w\<bar>" by (rule abs_mult)
  moreover have "\<bar>w\<bar> = w" using wpos by simp
  ultimately have ayx: "\<bar>y - x\<bar> = a * w" unfolding yx a_def by (simp only:)
  have "a * (2 ^ 54 + 1) \<le> of_int p" using c by (simp only: a_def)
  then have "a * (2 ^ 54 + 1) * w \<le> of_int p * w" using wpos by (intro mult_right_mono) simp_all
  moreover have "a * w * (2 ^ 54 + 1) = a * (2 ^ 54 + 1) * w" by (simp only: ac_simps)
  ultimately have "a * w * (2 ^ 54 + 1) \<le> of_int p * w" by (simp only:)
  then have dx: "\<bar>y - x\<bar> * (2 ^ 54 + 1) \<le> x" by (simp only: flip: ayx xw)
  have dx54: "\<bar>y - x\<bar> * 2 ^ 54 \<le> x - \<bar>y - x\<bar>" using dx by (simp add: algebra_simps)
  have small: "\<bar>y - x\<bar> \<le> x / 2 ^ 54"
  proof -
    have "\<bar>y - x\<bar> * 2 ^ 54 \<le> x" using dx54 by linarith
    then show ?thesis by (simp add: pos_le_divide_eq)
  qed
  have xy: "x - \<bar>y - x\<bar> \<le> y" by linarith
  have ypos: "0 < y"
  proof -
    have "x / 2 ^ 54 < x" using xpos by simp
    then show ?thesis using small xy by linarith
  qed
  have y2x: "y \<le> 2 * x"
  proof -
    have "x / 2 ^ 54 \<le> x" using xpos by simp
    then show ?thesis using small by linarith
  qed
  have y53: "y < 2 ^ 53" using y2x x32 by simp
  show ?thesis
  proof (cases "x = of_int K")
    case True
    have "\<bar>y - of_int K\<bar> * 2 ^ 54 \<le> y" using dx54 xy unfolding True [symmetric] by linarith
    then have "\<bar>y - of_int K\<bar> \<le> y / 2 ^ 54" by (simp add: pos_le_divide_eq)
    then have "roundToDouble y = of_int K" using ypos y53 by (intro roundToDouble_near_int)
    then have "\<lceil>js_mul c (of_nat n)\<rceil> = K" by (simp add: js_mul_def y_def N_def)
    then show ?thesis by (simp add: K_def x_def N_def)
  next
    case False
    have k1: "of_int K - 1 < x" and k2: "x \<le> of_int K" unfolding K_def by linarith+
    have xi: "x * 100 = of_int (p * int n)" by (simp add: x_def N_def)
    have "x < of_int K" using False k2 by simp
    then have "x * 100 < of_int K * 100" by simp
    then have "(of_int (p * int n) :: rat) < of_int (K * 100)" unfolding xi by simp
    then have "p * int n < K * 100" by (simp only: of_int_less_iff)
    then have "p * int n + 1 \<le> K * 100" by simp
    then have "(of_int (p * int n + 1) :: rat) \<le> of_int (K * 100)" by (simp only: of_int_le_iff)
    then have "x * 100 + 1 \<le> of_int K * 100" unfolding xi by simp
    then have up: "x \<le> of_int K - 1 / 100" by linarith
    have "(of_int K - 1) * 100 < x * 100" using k1 by simp
    then have "(of_int ((K - 1) * 100) :: rat) < of_int (p * int n)" unfolding xi by simp
    then have "(K - 1) * 100 < p * int n" by (simp only: of_int_less_iff)
    then have "(K - 1) * 100 + 1 \<le> p * int n" by simp
    then have "(of_int ((K - 1) * 100 + 1) :: rat) \<le> of_int (p * int n)" by (simp only: of_int_le_iff)
    then have "(of_int K - 1) * 100 + 1 \<le> x * 100" unfolding xi by simp
    then have "of_int K * 100 - 100 + 1 \<le> x * 100" by (simp add: algebra_simps)
    then have low: "of_int K - 1 + 1 / 100 \<le> x" by linarith
    have "\<bar>roundToDouble y - y\<bar> \<le> \<bar>y\<bar> / 2 ^ 53" by (rule roundToDouble_error)
    then have e1: "\<bar>roundToDouble y - y\<bar> \<le> y / 2 ^ 53" using ypos by simp
    have "y / 2 ^ 53 \<le> 2 * x / 2 ^ 53" using y2x by (simp add: divide_right_mono)
    also have "\<dots> < 2 * 2 ^ 32 / 2 ^ 53" using x32 by (simp add: divide_strict_right_mono)
    finally have e2: "y / 2 ^ 53 < 1 / 2 ^ 20" by simp
    have "x / 2 ^ 54 < 2 ^ 32 / 2 ^ 54" using x32 by (simp add: divide_strict_right_mono)
    then have e3: "\<bar>y - x\<bar> < 1 / 2 ^ 22" using small by simp
    have "\<bar>roundToDouble y - x\<bar> < 1 / 2 ^ 20 + 1 / 2 ^ 22" using e1 e2 e3 by linarith
    then have "\<bar>roundToDouble y - x\<bar> < 1 / 100" by simp
    then have "of_int K - 1 < roundToDouble y" and "roundToDouble y \<le> of_int K"
      using up low by linarith+
    then have "\<lceil>roundToDouble y\<rceil> = K" by (simp add: ceiling_unique)
    then have "\<lceil>js_mul c (of_nat n)\<rceil> = K" by (simp add: js_mul_def y_def N_def)
    then show ?thesis by (simp add: K_def x_def N_def)
  qed
qed


section \<open>Properties of parseCSVLine\<close>

lemma parseCSVLine_loop_plain:
  "dquote \<notin> set f \<Longrightarrow> comma \<notin> set f \<Longrightarrow>
   parseCSVLine_loop (f @ tail) result current False = parseCSVLine_loop tail result (current @ f) False"
  by (induction f arbitrary: current) auto

lemma parseCSVLine_loop_escaped:
  "(case tail of [] \<Rightarrow> True | d # _ \<Rightarrow> d \<noteq> dquote) \<Longrightarrow>
   parseCSVLine_loop (escapeQuotes f @ dquote # tail) result current True
     = parseCSVLine_loop tail result (current @ f) False"
proof (induction f arbitrary: current)
  case Nil
  then show ?case by (cases tail) (simp_all add: escapeQuotes_def)
next
  case (Cons c f)
  have step: "parseCSVLine_loop (escapeQuotes (c # f) @ dquote # tail) result current True
      = parseCSVLine_loop (escapeQuotes f @ dquote # tail) result (current @ [c]) True"
  proof (cases "c = dquote")
    case True
    then show ?thesis by (simp add: escapeQuotes_def)
  next
    case False
    then show ?thesis by (simp add: escapeQuotes_def)
  qed
  show ?case using Cons.IH [OF Cons.prems, of "current @ [c]"] step by simp
qed

lemma parseCSVLine_loop_field:
  assumes "writesField e f" and "case tail of [] \<Rightarrow> True | d # _ \<Rightarrow> d \<noteq> dquote"
  shows "parseCSVLine_loop (e @ tail) result current False
           = parseCSVLine_loop tail result (current @ f) False"
proof (cases "e = quoteField f")
  case True
  then show ?thesis
    using parseCSVLine_loop_escaped [OF assms(2), of f result current]
    by (simp add: quoteField_def)
next
  case False
  then show ?thesis
    using assms(1) parseCSVLine_loop_plain [of f tail result current]
    by (simp add: writesField_def)
qed

lemma comma_not_dquote [simp]: "comma \<noteq> dquote" "dquote \<noteq> comma"
  by (simp_all add: comma_def dquote_def)

lemma parseCSVLine_loop_fields:
  "list_all2 writesField es fs \<Longrightarrow> fs \<noteq> [] \<Longrightarrow>
   parseCSVLine_loop (joinComma es) result [] False = result @ fs"
proof (induction es arbitrary: fs result rule: joinComma.induct)
  case 1
  then show ?case by simp
next
  case (2 e)
  then obtain f where f: "fs = [f]" "writesField e f"
    by (auto simp: list_all2_Cons1)
  show ?case
    using parseCSVLine_loop_field [of e f "[]" result "[]"] f by simp
next
  case (3 e e' es)
  then obtain f fs' where f: "fs = f # fs'" "writesField e f" "list_all2 writesField (e' # es) fs'"
    by (auto simp: list_all2_Cons1)
  then have ne: "fs' \<noteq> []" by auto
  have "parseCSVLine_loop (joinComma (e # e' # es)) result [] False
      = parseCSVLine_loop (comma # joinComma (e' # es)) result f False"
    using parseCSVLine_loop_field [of e f "comma # joinComma (e' # es)" result "[]"] f by simp
  also have "\<dots> = parseCSVLine_loop (joinComma (e' # es)) (result @ [f]) [] False"
    by simp
  also have "\<dots> = (result @ [f]) @ fs'"
    using "3.IH" [OF f(3) ne] .
  finally show ?case using f by simp
qed

lemma parseCSVLine_loop_open:
  "dquote \<notin> set rest \<Longrightarrow> parseCSVLine_loop rest result current True = result @ [current @ rest]"
  by (induction rest arbitrary: current) auto

lemma parseCSVLine_loop_prefix:
  "list_all2 writesField es fs \<Longrightarrow>
   parseCSVLine_loop (concat (map (\<lambda>e. e @ [comma]) es) @ tail) result [] False
     = parseCSVLine_loop tail (result @ fs) [] False"
proof (induction es arbitrary: fs result)
  case Nil
  then show ?case by simp
next
  case (Cons e es)
  then obtain f fs' where f: "fs = f # fs'" "writesField e f" "list_all2 writesField es fs'"
    by (auto simp: list_all2_Cons1)
  have "parseCSVLine_loop (concat (map (\<lambda>e. e @ [comma]) (e # es)) @ tail) result [] False
      = parseCSVLine_loop (comma # concat (map (\<lambda>e. e @ [comma]) es) @ tail) result f False"
    using parseCSVLine_loop_field [of e f "comma # concat (map (\<lambda>e. e @ [comma]) es) @ tail" result "[]"] f
    by simp
  also have "\<dots> = parseCSVLine_loop (concat (map (\<lambda>e. e @ [comma]) es) @ tail) (result @ [f]) [] False"
    by simp
  also have "\<dots> = parseCSVLine_loop tail ((result @ [f]) @ fs') [] False"
    using Cons.IH [OF f(3)] .
  finally show ?case using f by simp
qed

text \<open>
  Claim C7. \<^verbatim>\<open>parseCSVLine\<close> is a total function (it raises nothing) and
  \<^item> a line of fields separated by commas, each field written plainly (no quote, no comma)
    or between quotes with its quotes doubled, is read back as exactly these fields: a comma
    outside quotes separates, a comma inside a quoted field stays in the field, a doubled
    quote becomes one quote character;
  \<^item> after such fields, a quote that is never closed accumulates all the remaining
    characters of the line, commas included, into the last field;
  \<^item> the line \<^verbatim>\<open>"a,""b"",c"\<close> gives the single field \<^verbatim>\<open>a,"b",c\<close>.
\<close>

theorem parseCSVLine_tokenizes:
  "(list_all2 writesField es fs \<and> fs \<noteq> [] \<longrightarrow> parseCSVLine (joinComma es) = fs)
   \<and> (list_all2 writesField es fs \<and> dquote \<notin> set rest \<longrightarrow>
        parseCSVLine (concat (map (\<lambda>e. e @ [comma]) es) @ dquote # rest) = fs @ [rest])
   \<and> parseCSVLine ([dquote] @ ''a,'' @ [dquote, dquote] @ ''b'' @ [dquote, dquote] @ '',c'' @ [dquote])
        = [''a,'' @ [dquote] @ ''b'' @ [dquote] @ '',c'']"
proof (intro conjI impI)
  assume "list_all2 writesField es fs \<and> fs \<noteq> []"
  then show "parseCSVLine (joinComma es) = fs"
    using parseCSVLine_loop_fields [of es fs "[]"] by (simp add: parseCSVLine_def)
next
  assume a: "list_all2 writesField es fs \<and> dquote \<notin> set rest"
  then have "parseCSVLine (concat (map (\<lambda>e. e @ [comma]) es) @ dquote # rest)
      = parseCSVLine_loop (dquote # rest) fs [] False"
    using parseCSVLine_loop_prefix [of es fs "dquote # rest" "[]"] by (simp add: parseCSVLine_def)
  also have "\<dots> = fs @ [rest]"
    using a parseCSVLine_loop_open [of rest fs "[]"] by simp
  finally show "parseCSVLine (concat (map (\<lambda>e. e @ [comma]) es) @ dquote # rest) = fs @ [rest]" .
next
  show "parseCSVLine ([dquote] @ ''a,'' @ [dquote, dquote] @ ''b'' @ [dquote, dquote] @ '',c'' @ [dquote])
        = [''a,'' @ [dquote] @ ''b'' @ [dquote] @ '',c'']"
    by (simp add: parseCSVLine_def dquote_def comma_def)
qed

theorem parseCSVLine_tokenizes_witness:
  "list_all2 writesField [''x'', quoteField ''y,z''] [''x'', ''y,z''] \<and> [''x'', ''y,z''] \<noteq> []
   \<and> dquote \<notin> set ''q,r''
   \<and> parseCSVLine (joinComma [''x'', quoteField ''y,z'']) = [''x'', ''y,z'']
   \<and> parseCSVLine (concat (map (\<lambda>e. e @ [comma]) [''x'', quoteField ''y,z'']) @ dquote # ''q,r'')
        = [''x'', ''y,z''] @ [''q,r'']"
proof -
  have h1: "list_all2 writesField [''x'', quoteField ''y,z''] [''x'', ''y,z'']"
    by (simp add: writesField_def dquote_def comma_def)
  have h2: "dquote \<notin> set ''q,r''"
    by (simp add: dquote_def)
  show ?thesis
    using h1 h2
      parseCSVLine_tokenizes [of "[''x'', quoteField ''y,z'']" "[''x'', ''y,z'']" "''q,r''"]
    by simp
qed

section \<open>Properties of calculateStatistics\<close>

lemma percentile_index_int: "percentile_index n p = - ((- (p * int n)) div 100) - 1"
proof -
  have "(real_of_int p / 100) * real n = real_of_int (p * int n) / real_of_int 100" by simp
  then show ?thesis unfolding percentile_index_def
    by (simp only: ceiling_divide_eq_div)
qed

lemma sum_list_sort: "sum_list (sort xs) = sum_list (xs :: int list)"
proof -
  have "mset (sort xs) = mset xs" by simp
  then show ?thesis by (metis sum_mset_sum_list)
qed

lemma sum_list_abs_sort: "sum_list (map abs (sort xs)) = sum_list (map abs (xs :: int list))"
proof -
  have "mset (map abs (sort xs)) = mset (map abs xs)" by simp
  then show ?thesis by (metis sum_mset_sum_list)
qed

lemma abs_sum_list_le: "\<bar>sum_list xs\<bar> \<le> sum_list (map abs (xs :: int list))"
  by (induction xs) simp_all

lemma sum_list_lower: "(\<forall>x \<in> set xs. lo \<le> x) \<Longrightarrow> lo * int (length xs) \<le> sum_list (xs :: int list)"
  by (induction xs) (simp_all add: algebra_simps)

lemma sum_list_upper: "(\<forall>x \<in> set xs. x \<le> hi) \<Longrightarrow> sum_list (xs :: int list) \<le> hi * int (length xs)"
  by (induction xs) (simp_all add: algebra_simps)

lemma sorted_hd_le: "sorted xs \<Longrightarrow> x \<in> set xs \<Longrightarrow> hd xs \<le> (x :: int)"
  by (cases xs) auto

lemma sorted_le_last: "sorted xs \<Longrightarrow> x \<in> set xs \<Longrightarrow> (x :: int) \<le> last xs"
  by (induction xs) (auto split: if_splits)

lemma round_between:
  assumes "real_of_int lo \<le> x" and "x \<le> real_of_int hi"
  shows "lo \<le> \<lfloor>x + 1 / 2\<rfloor> \<and> \<lfloor>x + 1 / 2\<rfloor> \<le> hi"
proof -
  have "real_of_int lo \<le> x + 1 / 2" using assms(1) by simp
  then have a: "lo \<le> \<lfloor>x + 1 / 2\<rfloor>" by (simp add: le_floor_iff)
  have "x + 1 / 2 < real_of_int (hi + 1)" using assms(2) by simp
  then have "\<lfloor>x + 1 / 2\<rfloor> < hi + 1" by (simp only: floor_less_iff)
  then show ?thesis using a by simp
qed

lemma round_nearest: "\<bar>real_of_int \<lfloor>x + 1 / 2\<rfloor> - x\<bar> \<le> 1 / 2"
  by linarith

lemma floor_rat_real:
  "\<lfloor>(of_int s / of_nat n :: rat) + 1 / 2\<rfloor> = \<lfloor>real_of_int s / real n + 1 / 2\<rfloor>"
proof -
  have "real_of_int s / real n + 1 / 2 = of_rat ((of_int s / of_nat n :: rat) + 1 / 2)"
    by (simp add: of_rat_add of_rat_divide)
  then show ?thesis by (simp only: of_rat_floor)
qed

lemma mean_between:
  assumes "xs \<noteq> []" and "\<forall>x \<in> set xs. lo \<le> x \<and> x \<le> hi"
  shows "real_of_int lo \<le> real_of_int (sum_list xs) / real (length xs)
       \<and> real_of_int (sum_list xs) / real (length xs) \<le> real_of_int hi"
proof -
  have n: "0 < real (length xs)" using assms(1) by simp
  have "lo * int (length xs) \<le> sum_list xs" using assms(2) sum_list_lower by blast
  then have "real_of_int (lo * int (length xs)) \<le> real_of_int (sum_list xs)" by (simp only: of_int_le_iff)
  then have a: "real_of_int lo * real (length xs) \<le> real_of_int (sum_list xs)" by simp
  have "sum_list xs \<le> hi * int (length xs)" using assms(2) sum_list_upper by blast
  then have "real_of_int (sum_list xs) \<le> real_of_int (hi * int (length xs))" by (simp only: of_int_le_iff)
  then have b: "real_of_int (sum_list xs) \<le> real_of_int hi * real (length xs)" by simp
  show ?thesis using a b n by (simp add: pos_le_divide_eq pos_divide_le_eq)
qed

lemma percentile_index_range:
  assumes "0 < n" and "0 < p" and "p \<le> 100"
  shows "0 \<le> percentile_index n p \<and> percentile_index n p < int n"
proof -
  let ?x = "(real_of_int p / 100) * real n"
  have "0 < ?x" using assms by simp
  then have "0 < \<lceil>?x\<rceil>" by (simp only: ceiling_less_iff less_ceiling_iff)
  moreover have "?x \<le> real n"
  proof -
    have "real_of_int p / 100 \<le> 1" using assms(3) by simp
    then have "(real_of_int p / 100) * real n \<le> 1 * real n"
      by (rule mult_right_mono) simp
    then show ?thesis by simp
  qed
  then have "\<lceil>?x\<rceil> \<le> int n" by (simp add: ceiling_le_iff)
  ultimately show ?thesis by (simp add: percentile_index_def)
qed

lemma percentile_index_mono: "p \<le> q \<Longrightarrow> percentile_index n p \<le> percentile_index n q"
proof -
  assume "p \<le> q"
  then have "real_of_int p / 100 \<le> real_of_int q / 100" by simp
  then have "(real_of_int p / 100) * real n \<le> (real_of_int q / 100) * real n"
    by (rule mult_right_mono) simp
  then have "\<lceil>(real_of_int p / 100) * real n\<rceil> \<le> \<lceil>(real_of_int q / 100) * real n\<rceil>"
    by (rule ceiling_mono)
  then show ?thesis unfolding percentile_index_def by linarith
qed

text \<open>The index that the code computes in binary64, \<^verbatim>\<open>Math.ceil((p / 100) * length) - 1\<close> with
  the quotient and the product rounded, is the exact one for the three percentiles and every
  array, the length of an array being below \<open>2^32\<close>.\<close>

lemma js_div_percent:
  "js_div 90 100 = 8106479329266893 / 2 ^ 53"
  "js_div 95 100 = 4278419646001971 / 2 ^ 52"
  "js_div 99 100 = 4458563631096791 / 2 ^ 52"
  by code_simp+

lemma percentile_index_binary64:
  assumes "p \<in> {90, 95, 99}" and "0 < n" and "n < 2 ^ 32"
  shows "\<lceil>js_mul (js_div (of_int p) 100) (of_nat n)\<rceil> - 1 = percentile_index n p"
proof -
  have c: "\<bar>js_div (of_int p) 100 * 100 - of_int p\<bar> * (2 ^ 54 + 1) \<le> of_int p"
    using assms(1) by (auto simp: js_div_percent)
  have p: "0 < p" "p \<le> 100" using assms(1) by auto
  have "\<lceil>js_mul (js_div (of_int p) 100) (of_nat n)\<rceil> = \<lceil>(of_int p / 100 :: rat) * of_nat n\<rceil>"
    using c p assms(2, 3) by (rule ceiling_js_mul)
  also have "\<dots> = \<lceil>(real_of_int p / 100) * real n\<rceil>"
  proof -
    have "(real_of_int p / 100) * real n = of_rat ((of_int p / 100 :: rat) * of_nat n)"
      by (simp add: of_rat_mult of_rat_divide)
    then show ?thesis by (simp only: of_rat_ceiling)
  qed
  finally show ?thesis by (simp add: percentile_index_def)
qed

lemma percentile_nth:
  assumes "xs \<noteq> []" and "0 < p" and "p \<le> 100"
  shows "percentile xs p = Some (xs ! nat (percentile_index (length xs) p))"
  using percentile_index_range [of "length xs" p] assms
  by (simp add: percentile_def js_nth_def max_def)

lemma calculateStatistics_nonempty:
  assumes "values \<noteq> []"
  shows "calculateStatistics values =
     \<lparr>min_stat = hd (sort values), max_stat = last (sort values),
      avg = Math_round (js_div (foldl (\<lambda>a b. js_add a (of_int b)) 0 (sort values))
                               (of_nat (length values))),
      p90 = Some (sort values ! nat (percentile_index (length values) 90)),
      p95 = Some (sort values ! nat (percentile_index (length values) 95)),
      p99 = Some (sort values ! nat (percentile_index (length values) 99))\<rparr>"
proof -
  have ne: "sort values \<noteq> []" using assms by (metis length_sort length_0_conv)
  show ?thesis
    using assms percentile_nth [OF ne, of 90] percentile_nth [OF ne, of 95] percentile_nth [OF ne, of 99]
    by (simp add: calculateStatistics_def Let_def)
qed

text \<open>When the absolute values add up to less than \<open>2^52\<close>, no sum is rounded and the
  rounding of the quotient does not show: the average is the exact mean rounded.\<close>

lemma calculateStatistics_avg:
  assumes "values \<noteq> []" and "sum_list (map abs values) < 2 ^ 52"
  shows "avg (calculateStatistics values)
           = \<lfloor>real_of_int (sum_list values) / real (length values) + 1 / 2\<rfloor>"
proof -
  have "\<bar>0::int\<bar> + sum_list (map abs (sort values)) < 2 ^ 53"
    using assms(2) by (simp add: sum_list_abs_sort)
  then have "foldl (\<lambda>a b. js_add a (of_int b)) (of_int 0) (sort values) = of_int (0 + sum_list (sort values))"
    by (rule foldl_js_add_sum)
  then have sum: "foldl (\<lambda>a b. js_add a (of_int b)) 0 (sort values) = of_int (sum_list values)"
    by (simp add: sum_list_sort)
  have s: "\<bar>sum_list values\<bar> < 2 ^ 52" using abs_sum_list_le [of "values"] assms(2) by linarith
  have n: "0 < length values" using assms(1) by simp
  have "avg (calculateStatistics values)
          = Math_round (js_div (of_int (sum_list values)) (of_nat (length values)))"
    by (simp add: calculateStatistics_nonempty [OF assms(1)] sum)
  also have "\<dots> = \<lfloor>(of_int (sum_list values) / of_nat (length values) :: rat) + 1 / 2\<rfloor>"
    using s n by (rule Math_round_js_div)
  finally show ?thesis by (simp only: floor_rat_real)
qed

text \<open>
  Claim C5, amended. On the empty list \<^verbatim>\<open>calculateStatistics\<close> returns the six
  zeros. On a list of \<open>N > 0\<close> integers, with \<open>s\<close> its ascending sort: \<open>min\<close> is \<open>s[0]\<close> (the
  least value), \<open>max\<close> is \<open>s[N - 1]\<close> (the greatest value), and for \<open>p\<close> in 90, 95, 99 the
  percentile is the element of \<open>s\<close> at the index \<open>ceil(p / 100 * N) - 1\<close> clamped to at least
  0, an index that always lies in the array; \<open>min\<close>, \<open>max\<close> and the percentiles are elements
  of the input, not rounded. When the absolute values add up to less than \<open>2^52\<close>, \<open>avg\<close> is
  the arithmetic mean rounded to the nearest integer (a tie going up).
\<close>

theorem calculateStatistics_values:
  "calculateStatistics [] = \<lparr>min_stat = 0, max_stat = 0, avg = 0, p90 = Some 0, p95 = Some 0, p99 = Some 0\<rparr>
   \<and> (values \<noteq> [] \<longrightarrow>
        sorted (sort values) \<and> mset (sort values) = mset values
      \<and> min_stat (calculateStatistics values) = sort values ! 0
      \<and> min_stat (calculateStatistics values) = Min (set values)
      \<and> max_stat (calculateStatistics values) = sort values ! (length values - 1)
      \<and> max_stat (calculateStatistics values) = Max (set values)
      \<and> (sum_list (map abs values) < 2 ^ 52 \<longrightarrow>
            avg (calculateStatistics values)
              = \<lfloor>real_of_int (sum_list values) / real (length values) + 1 / 2\<rfloor>
          \<and> \<bar>real_of_int (avg (calculateStatistics values))
              - real_of_int (sum_list values) / real (length values)\<bar> \<le> 1 / 2)
      \<and> (\<forall>p \<in> {90, 95, 99}.
            0 \<le> \<lceil>real_of_int p / 100 * real (length values)\<rceil> - 1
          \<and> \<lceil>real_of_int p / 100 * real (length values)\<rceil> - 1 < int (length values)
          \<and> sort values ! nat (max 0 (\<lceil>real_of_int p / 100 * real (length values)\<rceil> - 1)) \<in> set values)
      \<and> p90 (calculateStatistics values)
            = Some (sort values ! nat (max 0 (\<lceil>90 / 100 * real (length values)\<rceil> - 1)))
      \<and> p95 (calculateStatistics values)
            = Some (sort values ! nat (max 0 (\<lceil>95 / 100 * real (length values)\<rceil> - 1)))
      \<and> p99 (calculateStatistics values)
            = Some (sort values ! nat (max 0 (\<lceil>99 / 100 * real (length values)\<rceil> - 1))))"
proof (intro conjI impI)
  show "calculateStatistics [] = \<lparr>min_stat = 0, max_stat = 0, avg = 0, p90 = Some 0, p95 = Some 0, p99 = Some 0\<rparr>"
    by (simp add: calculateStatistics_def)
next
  assume ne: "values \<noteq> []"
  let ?s = "sort values"
  let ?n = "length values"
  have sne: "?s \<noteq> []" using ne by (metis length_sort length_0_conv)
  have st: "sorted ?s" by simp
  have cs: "min_stat (calculateStatistics values) = hd ?s"
      "max_stat (calculateStatistics values) = last ?s"
      "p90 (calculateStatistics values) = Some (?s ! nat (percentile_index ?n 90))"
      "p95 (calculateStatistics values) = Some (?s ! nat (percentile_index ?n 95))"
      "p99 (calculateStatistics values) = Some (?s ! nat (percentile_index ?n 99))"
    by (simp_all add: calculateStatistics_nonempty [OF ne])
  have idx: "0 \<le> percentile_index ?n p \<and> percentile_index ?n p < int ?n"
    if "p \<in> {90, 95, 99}" for p
    using percentile_index_range [of ?n p] ne that by auto
  show "sorted ?s" by simp
  show "mset ?s = mset values" by simp
  show "min_stat (calculateStatistics values) = ?s ! 0"
    using sne by (simp add: cs hd_conv_nth)
  show "max_stat (calculateStatistics values) = ?s ! (?n - 1)"
    using sne by (simp add: cs last_conv_nth)
  show "min_stat (calculateStatistics values) = Min (set values)"
  proof -
    have "hd ?s \<in> set values" using sne by (metis hd_in_set set_sort)
    moreover have "\<forall>x \<in> set values. hd ?s \<le> x"
      using sorted_hd_le [OF st] by simp
    ultimately have "Min (set values) = hd ?s"
      by (intro Min_eqI) auto
    then show ?thesis by (simp add: cs)
  qed
  show "max_stat (calculateStatistics values) = Max (set values)"
  proof -
    have "last ?s \<in> set values" using sne by (metis last_in_set set_sort)
    moreover have "\<forall>x \<in> set values. x \<le> last ?s"
      using sorted_le_last [OF st] by simp
    ultimately have "Max (set values) = last ?s"
      by (intro Max_eqI) auto
    then show ?thesis by (simp add: cs)
  qed
  show "\<forall>p \<in> {90, 95, 99}.
            0 \<le> \<lceil>real_of_int p / 100 * real ?n\<rceil> - 1
          \<and> \<lceil>real_of_int p / 100 * real ?n\<rceil> - 1 < int ?n
          \<and> ?s ! nat (max 0 (\<lceil>real_of_int p / 100 * real ?n\<rceil> - 1)) \<in> set values"
  proof
    fix p :: int
    assume p: "p \<in> {90, 95, 99}"
    have i: "0 \<le> percentile_index ?n p \<and> percentile_index ?n p < int ?n" using idx [OF p] .
    then have "nat (percentile_index ?n p) < length ?s" by (simp add: nat_less_iff)
    then have "?s ! nat (percentile_index ?n p) \<in> set ?s" by (rule nth_mem)
    then have "?s ! nat (max 0 (percentile_index ?n p)) \<in> set values" using i by (simp add: max_def)
    then show "0 \<le> \<lceil>real_of_int p / 100 * real ?n\<rceil> - 1
          \<and> \<lceil>real_of_int p / 100 * real ?n\<rceil> - 1 < int ?n
          \<and> ?s ! nat (max 0 (\<lceil>real_of_int p / 100 * real ?n\<rceil> - 1)) \<in> set values"
      using i by (simp add: percentile_index_def)
  qed
  show "p90 (calculateStatistics values) = Some (?s ! nat (max 0 (\<lceil>90 / 100 * real ?n\<rceil> - 1)))"
    using idx [of 90] by (simp add: cs percentile_index_def max_def)
  show "p95 (calculateStatistics values) = Some (?s ! nat (max 0 (\<lceil>95 / 100 * real ?n\<rceil> - 1)))"
    using idx [of 95] by (simp add: cs percentile_index_def max_def)
  show "p99 (calculateStatistics values) = Some (?s ! nat (max 0 (\<lceil>99 / 100 * real ?n\<rceil> - 1)))"
    using idx [of 99] by (simp add: cs percentile_index_def max_def)
next
  assume ne: "values \<noteq> []" and small: "sum_list (map abs values) < 2 ^ 52"
  show a: "avg (calculateStatistics values)
              = \<lfloor>real_of_int (sum_list values) / real (length values) + 1 / 2\<rfloor>"
    using ne small by (rule calculateStatistics_avg)
  show "\<bar>real_of_int (avg (calculateStatistics values))
              - real_of_int (sum_list values) / real (length values)\<bar> \<le> 1 / 2"
    unfolding a by (rule round_nearest)
qed

theorem calculateStatistics_values_witness:
  "[500, 100, 302] \<noteq> ([] :: int list)
   \<and> sum_list (map abs [500, 100, 302 :: int]) < 2 ^ 52
   \<and> calculateStatistics [500, 100, 302]
       = \<lparr>min_stat = 100, max_stat = 500, avg = 301, p90 = Some 500, p95 = Some 500, p99 = Some 500\<rparr>
   \<and> min_stat (calculateStatistics [500, 100, 302]) = sort [500, 100, 302] ! 0
   \<and> avg (calculateStatistics [500, 100, 302])
        = \<lfloor>real_of_int (sum_list [500, 100, 302]) / real (length [500, 100, 302 :: int]) + 1 / 2\<rfloor>
   \<and> p90 (calculateStatistics [500, 100, 302])
        = Some (sort [500, 100, 302] ! nat (max 0 (\<lceil>90 / 100 * real (length [500, 100, 302 :: int])\<rceil> - 1)))"
proof -
  have h: "[500, 100, 302] \<noteq> ([] :: int list)" "sum_list (map abs [500, 100, 302 :: int]) < 2 ^ 52"
    by simp_all
  have inst: "avg (calculateStatistics [500, 100, 302])
        = \<lfloor>real_of_int (sum_list [500, 100, 302]) / real (length [500, 100, 302 :: int]) + 1 / 2\<rfloor>
      \<and> min_stat (calculateStatistics [500, 100, 302]) = sort [500, 100, 302] ! 0
      \<and> p90 (calculateStatistics [500, 100, 302])
        = Some (sort [500, 100, 302] ! nat (max 0 (\<lceil>90 / 100 * real (length [500, 100, 302 :: int])\<rceil> - 1)))"
    using h calculateStatistics_values [of "[500, 100, 302]"] by blast
  then have a: "avg (calculateStatistics [500, 100, 302]) = 301" by simp
  have c: "calculateStatistics [500, 100, 302]
       = \<lparr>min_stat = 100, max_stat = 500,
          avg = avg (calculateStatistics [500, 100, 302]),
          p90 = Some 500, p95 = Some 500, p99 = Some 500\<rparr>"
    by (simp add: calculateStatistics_def percentile_def percentile_index_int js_nth_def)
  show ?thesis using h inst a c by simp
qed

text \<open>
  Claim C5, counterexample. The average is not the arithmetic mean rounded to the nearest
  integer on every non-empty list: three values of 9007199254740990 add up to
  27021597764222970, which is no binary64 value; the sum kept is 27021597764222968, its
  third is rounded to 9007199254740989, and that is the average returned, 1 below the mean.
\<close>

theorem calculateStatistics_avg_not_mean:
  "avg (calculateStatistics [9007199254740990, 9007199254740990, 9007199254740990]) = 9007199254740989
   \<and> \<lfloor>real_of_int (sum_list [9007199254740990, 9007199254740990, 9007199254740990])
          / real (length [9007199254740990, 9007199254740990, 9007199254740990 :: int]) + 1 / 2\<rfloor>
       = 9007199254740990
   \<and> \<not> \<bar>real_of_int (avg (calculateStatistics [9007199254740990, 9007199254740990, 9007199254740990]))
          - real_of_int (sum_list [9007199254740990, 9007199254740990, 9007199254740990])
              / real (length [9007199254740990, 9007199254740990, 9007199254740990 :: int])\<bar> \<le> 1 / 2"
proof -
  have a: "avg (calculateStatistics [9007199254740990, 9007199254740990, 9007199254740990])
             = 9007199254740989"
    by code_simp
  show ?thesis unfolding a by simp
qed

text \<open>
  Claim C6, amended. For every list of integers whose absolute values add up to
  less than \<open>2^52\<close>, the empty list included, \<open>min \<le> avg \<le> max\<close>; and for every list of
  integers \<open>p90 \<le> p95 \<le> p99 \<le> max\<close> (the three percentiles being defined).
\<close>

theorem calculateStatistics_ordered:
  "(sum_list (map abs values) < 2 ^ 52 \<longrightarrow>
      min_stat (calculateStatistics values) \<le> avg (calculateStatistics values)
    \<and> avg (calculateStatistics values) \<le> max_stat (calculateStatistics values))
   \<and> (\<exists>a b c. p90 (calculateStatistics values) = Some a
              \<and> p95 (calculateStatistics values) = Some b
              \<and> p99 (calculateStatistics values) = Some c
              \<and> a \<le> b \<and> b \<le> c \<and> c \<le> max_stat (calculateStatistics values))"
proof (cases "values = []")
  case True
  then show ?thesis by (simp add: calculateStatistics_def)
next
  case False
  let ?s = "sort values"
  let ?n = "length values"
  have sne: "?s \<noteq> []" using False by (metis length_sort length_0_conv)
  have st: "sorted ?s" by simp
  have cs: "min_stat (calculateStatistics values) = hd ?s"
      "max_stat (calculateStatistics values) = last ?s"
      "p90 (calculateStatistics values) = Some (?s ! nat (percentile_index ?n 90))"
      "p95 (calculateStatistics values) = Some (?s ! nat (percentile_index ?n 95))"
      "p99 (calculateStatistics values) = Some (?s ! nat (percentile_index ?n 99))"
    by (simp_all add: calculateStatistics_nonempty [OF False])
  have bounds: "\<forall>x \<in> set values. hd ?s \<le> x \<and> x \<le> last ?s"
    using sorted_hd_le [OF st] sorted_le_last [OF st] by simp
  have mean: "real_of_int (hd ?s) \<le> real_of_int (sum_list values) / real ?n
       \<and> real_of_int (sum_list values) / real ?n \<le> real_of_int (last ?s)"
    using mean_between [OF False bounds] .
  have avg: "hd ?s \<le> avg (calculateStatistics values) \<and> avg (calculateStatistics values) \<le> last ?s"
    if small: "sum_list (map abs values) < 2 ^ 52"
    unfolding calculateStatistics_avg [OF False small]
    using mean by (intro round_between) simp_all
  have r90: "0 \<le> percentile_index ?n 90 \<and> percentile_index ?n 90 < int ?n"
    using percentile_index_range [of ?n 90] False by simp
  have r95: "0 \<le> percentile_index ?n 95 \<and> percentile_index ?n 95 < int ?n"
    using percentile_index_range [of ?n 95] False by simp
  have r99: "0 \<le> percentile_index ?n 99 \<and> percentile_index ?n 99 < int ?n"
    using percentile_index_range [of ?n 99] False by simp
  have m1: "percentile_index ?n 90 \<le> percentile_index ?n 95"
    by (rule percentile_index_mono) simp
  have m2: "percentile_index ?n 95 \<le> percentile_index ?n 99"
    by (rule percentile_index_mono) simp
  have le1: "?s ! nat (percentile_index ?n 90) \<le> ?s ! nat (percentile_index ?n 95)"
    using st r90 r95 m1 by (intro sorted_nth_mono) simp_all
  have le2: "?s ! nat (percentile_index ?n 95) \<le> ?s ! nat (percentile_index ?n 99)"
    using st r95 r99 m2 by (intro sorted_nth_mono) simp_all
  have "?s ! nat (percentile_index ?n 99) \<in> set ?s"
    using r99 by (intro nth_mem) (simp add: nat_less_iff)
  then have le3: "?s ! nat (percentile_index ?n 99) \<le> last ?s"
    using sorted_le_last [OF st] by blast
  show ?thesis using avg le1 le2 le3 by (simp add: cs)
qed

theorem calculateStatistics_ordered_witness:
  "sum_list (map abs [500, 100, 302 :: int]) < 2 ^ 52
   \<and> min_stat (calculateStatistics [500, 100, 302]) = 100
   \<and> max_stat (calculateStatistics [500, 100, 302]) = 500
   \<and> min_stat (calculateStatistics [500, 100, 302]) \<le> avg (calculateStatistics [500, 100, 302])
   \<and> avg (calculateStatistics [500, 100, 302]) \<le> max_stat (calculateStatistics [500, 100, 302])"
proof -
  have h: "sum_list (map abs [500, 100, 302 :: int]) < 2 ^ 52" by simp
  have m: "min_stat (calculateStatistics [500, 100, 302]) = 100"
      "max_stat (calculateStatistics [500, 100, 302]) = 500"
    by (simp_all add: calculateStatistics_def Let_def)
  show ?thesis using h m calculateStatistics_ordered [of "[500, 100, 302]"] by blast
qed

text \<open>
  Claim C6, counterexample. \<open>min \<le> avg\<close> does not hold for every list of integers: on the
  three values of 9007199254740990 the average returned, 9007199254740989, is below the
  minimum 9007199254740990.
\<close>

theorem calculateStatistics_avg_below_min:
  "min_stat (calculateStatistics [9007199254740990, 9007199254740990, 9007199254740990]) = 9007199254740990
   \<and> avg (calculateStatistics [9007199254740990, 9007199254740990, 9007199254740990])
        < min_stat (calculateStatistics [9007199254740990, 9007199254740990, 9007199254740990])
   \<and> \<not> (min_stat (calculateStatistics [9007199254740990, 9007199254740990, 9007199254740990])
          \<le> avg (calculateStatistics [9007199254740990, 9007199254740990, 9007199254740990]))"
proof -
  have a: "avg (calculateStatistics [9007199254740990, 9007199254740990, 9007199254740990])
             = 9007199254740989"
    by code_simp
  have m: "min_stat (calculateStatistics [9007199254740990, 9007199254740990, 9007199254740990])
             = 9007199254740990"
    by (simp add: calculateStatistics_def Let_def)
  show ?thesis unfolding a m by simp
qed

section \<open>Properties of the scan\<close>

lemma indexOf_ge: "- 1 \<le> indexOf xs x"
  by (induction xs) (simp_all add: Let_def)

lemma indexOf_absent: "indexOf xs x = - 1 \<longleftrightarrow> x \<notin> set xs"
proof (induction xs)
  case Nil
  then show ?case by simp
next
  case (Cons y ys)
  have "- 1 \<le> indexOf ys x" by (rule indexOf_ge)
  then have "indexOf ys x + 1 \<noteq> - 1" by linarith
  then show ?case using Cons by (auto simp: Let_def)
qed

lemma trackTimestamps_fields [simp]:
  "transactions (trackTimestamps st s) = transactions st"
  "allSamples (trackTimestamps st s) = allSamples st"
  "errors (trackTimestamps st s) = errors st"
  "totalSuccessCount (trackTimestamps st s) = totalSuccessCount st"
  "totalErrorCount (trackTimestamps st s) = totalErrorCount st"
  "currentTransaction (trackTimestamps st s) = currentTransaction st"
  "currentTransactionExecutionIndex (trackTimestamps st s) = currentTransactionExecutionIndex st"
  "expectedChildRequestCount (trackTimestamps st s) = expectedChildRequestCount st"
  "collectedChildRequestCount (trackTimestamps st s) = collectedChildRequestCount st"
  by (simp_all add: trackTimestamps_def)

lemma trackErrors_fields [simp]:
  "transactions (trackErrors st s) = transactions st"
  "allSamples (trackErrors st s) = allSamples st"
  "currentTransaction (trackErrors st s) = currentTransaction st"
  "currentTransactionExecutionIndex (trackErrors st s) = currentTransactionExecutionIndex st"
  "expectedChildRequestCount (trackErrors st s) = expectedChildRequestCount st"
  "collectedChildRequestCount (trackErrors st s) = collectedChildRequestCount st"
  by (simp_all add: trackErrors_def)

lemma groupController_tally:
  assumes "groupController st s = Inr st'"
  shows "allSamples st' = allSamples st \<and> errors st' = errors st
       \<and> totalSuccessCount st' = totalSuccessCount st \<and> totalErrorCount st' = totalErrorCount st"
  using assms by (auto simp: groupController_def Let_def split: if_splits)

lemma collectChild_tally:
  assumes "collectChild st s = Inr st'"
  shows "allSamples st' = allSamples st \<and> errors st' = errors st
       \<and> totalSuccessCount st' = totalSuccessCount st \<and> totalErrorCount st' = totalErrorCount st"
  using assms
  by (auto simp: collectChild_def Let_def resetCurrent_def split: if_splits option.splits)

lemma if_chain_cases:
  "(if c1 then a else if c2 then b else c) = r \<Longrightarrow>
   (c1 \<and> a = r) \<or> (\<not> c1 \<and> c2 \<and> b = r) \<or> (\<not> c1 \<and> \<not> c2 \<and> c = r)"
  by (simp split: if_splits)

lemma processSample_cases:
  assumes "processSample st0 s = Inr st'"
    and "st = trackErrors (trackTimestamps (st0\<lparr>allSamples := allSamples st0 @ [s]\<rparr>) s) s"
  shows "(dataType s = [] \<and> includes_str (responseMessage s) transactionMarker
            \<and> groupController st s = Inr st')
       \<or> (\<not> (dataType s = [] \<and> includes_str (responseMessage s) transactionMarker)
            \<and> (currentTransaction st \<noteq> None \<and> currentTransaction st \<noteq> Some [])
            \<and> currentTransactionExecutionIndex st \<ge> 0
            \<and> collectChild st s = Inr st')
       \<or> (\<not> (dataType s = [] \<and> includes_str (responseMessage s) transactionMarker)
            \<and> \<not> ((currentTransaction st \<noteq> None \<and> currentTransaction st \<noteq> Some [])
                    \<and> currentTransactionExecutionIndex st \<ge> 0)
            \<and> st' = st)"
proof -
  have eq: "processSample st0 s =
      (if dataType s = [] \<and> includes_str (responseMessage s) transactionMarker
       then groupController st s
       else if (currentTransaction st \<noteq> None \<and> currentTransaction st \<noteq> Some [])
               \<and> currentTransactionExecutionIndex st \<ge> 0
       then collectChild st s
       else Inr st)"
    unfolding assms(2) by (simp only: processSample_def Let_def)
  have "(if dataType s = [] \<and> includes_str (responseMessage s) transactionMarker
       then groupController st s
       else if (currentTransaction st \<noteq> None \<and> currentTransaction st \<noteq> Some [])
               \<and> currentTransactionExecutionIndex st \<ge> 0
       then collectChild st s
       else Inr st) = Inr st'"
    using assms(1) by (simp only: eq)
  from if_chain_cases [OF this] show ?thesis by blast
qed

lemma preState_fields:
  assumes "st = trackErrors (trackTimestamps (st0\<lparr>allSamples := allSamples st0 @ [s]\<rparr>) s) s"
  shows "transactions st = transactions st0"
    and "currentTransaction st = currentTransaction st0"
    and "currentTransactionExecutionIndex st = currentTransactionExecutionIndex st0"
    and "expectedChildRequestCount st = expectedChildRequestCount st0"
    and "collectedChildRequestCount st = collectedChildRequestCount st0"
    and "allSamples st = allSamples st0 @ [s]"
    and "errors st = errors (trackErrors st0 s)"
    and "totalSuccessCount st = totalSuccessCount (trackErrors st0 s)"
    and "totalErrorCount st = totalErrorCount (trackErrors st0 s)"
  unfolding assms by (simp_all add: trackErrors_def trackTimestamps_def)

lemma processSample_tally:
  assumes "processSample st0 s = Inr st'"
  shows "allSamples st' = allSamples st0 @ [s]
       \<and> errors st' = errors (trackErrors st0 s)
       \<and> totalSuccessCount st' = totalSuccessCount (trackErrors st0 s)
       \<and> totalErrorCount st' = totalErrorCount (trackErrors st0 s)"
proof -
  define st where "st = trackErrors (trackTimestamps (st0\<lparr>allSamples := allSamples st0 @ [s]\<rparr>) s) s"
  note f = preState_fields [OF st_def]
  from processSample_cases [OF assms st_def]
  consider "groupController st s = Inr st'" | "collectChild st s = Inr st'" | "st' = st"
    by blast
  then show ?thesis
  proof cases
    case 1
    then show ?thesis using groupController_tally [OF 1] f by simp
  next
    case 2
    then show ?thesis using collectChild_tally [OF 2] f by simp
  next
    case 3
    then show ?thesis using f by simp
  qed
qed

lemma processLine_cases:
  assumes "processLine h st line = Inr st'"
  shows "st' = st \<or> processSample st (makeSample h (parseCSVLine line)) = Inr st'"
  using assms by (auto simp: processLine_def Let_def split: if_splits)

lemma processSample_tallyInvariant:
  assumes "processSample st s = Inr st'" and "tallyInvariant st"
  shows "tallyInvariant st'"
  using processSample_tally [OF assms(1)] assms(2)
  by (auto simp: tallyInvariant_def trackErrors_def)

lemma processLines_tallyInvariant:
  "processLines h st ls = Inr st' \<Longrightarrow> tallyInvariant st \<Longrightarrow> tallyInvariant st'"
proof (induction ls arbitrary: st)
  case Nil
  then show ?case by simp
next
  case (Cons l ls)
  from Cons.prems(1) obtain st1 where st1: "processLine h st l = Inr st1" "processLines h st1 ls = Inr st'"
    by (auto split: sum.splits)
  have "tallyInvariant st1"
    using processLine_cases [OF st1(1)] processSample_tallyInvariant Cons.prems(2) by blast
  then show ?case using Cons.IH [OF st1(2)] by simp
qed

lemma scanCSV_processLines:
  assumes "scanCSV csv = Inr (Some st)"
  shows "\<exists>header rows. nonBlankLines csv = header # rows \<and> rows \<noteq> []
           \<and> processLines (headerIndices (parseCSVLine header)) initialState rows = Inr st"
  using assms
  by (auto simp: scanCSV_def Let_def split: list.splits if_splits sum.splits)

lemma scanCSV_tallyInvariant:
  assumes "scanCSV csv = Inr (Some st)"
  shows "tallyInvariant st"
proof -
  obtain header rows where
    "processLines (headerIndices (parseCSVLine header)) initialState rows = Inr st"
    using scanCSV_processLines [OF assms] by blast
  moreover have "tallyInvariant initialState"
    by (simp add: tallyInvariant_def initialState_def)
  ultimately show ?thesis using processLines_tallyInvariant by blast
qed

lemma parseJMeterResults_scan:
  assumes "parseJMeterResults csv = Some r"
  shows "\<exists>st. scanCSV csv = Inr (Some st) \<and> r = finalizeResult st"
  using assms
  by (auto simp: parseJMeterResults_def parseJMeterResults_body_def split: sum.splits option.splits)

lemma processLine_short:
  "\<not> int (length (parseCSVLine l)) > max (labelIndex h) (elapsedIndex h) \<Longrightarrow> processLine h st l = Inr st"
  by (simp add: processLine_def Let_def del: max_less_iff_conj)

lemma processLine_enough:
  "int (length (parseCSVLine l)) > max (labelIndex h) (elapsedIndex h) \<Longrightarrow>
   processLine h st l = processSample st (makeSample h (parseCSVLine l))"
  by (simp add: processLine_def Let_def del: max_less_iff_conj)

lemma processLines_allSamples:
  "processLines h st ls = Inr st' \<Longrightarrow>
   allSamples st' = allSamples st
      @ map (\<lambda>l. makeSample h (parseCSVLine l))
            (filter (\<lambda>l. int (length (parseCSVLine l)) > max (labelIndex h) (elapsedIndex h)) ls)"
proof (induction ls arbitrary: st)
  case Nil
  then show ?case by simp
next
  case (Cons l ls)
  from Cons.prems obtain st1 where st1: "processLine h st l = Inr st1" "processLines h st1 ls = Inr st'"
    by (auto split: sum.splits)
  show ?case
  proof (cases "int (length (parseCSVLine l)) > max (labelIndex h) (elapsedIndex h)")
    case True
    then have "processSample st (makeSample h (parseCSVLine l)) = Inr st1"
      using st1(1) processLine_enough [where l = l and h = h and st = st] by simp
    then have "allSamples st1 = allSamples st @ [makeSample h (parseCSVLine l)]"
      using processSample_tally by blast
    then show ?thesis using Cons.IH [OF st1(2)] True by simp
  next
    case False
    then have "st1 = st" using st1(1) processLine_short [where l = l and h = h and st = st] by (simp del: max_less_iff_conj)
    then show ?thesis using Cons.IH [OF st1(2)] False by simp
  qed
qed

text \<open>
  Claim C3. In one step of the scan the error counter and the error list grow exactly when
  the sample has \<open>success = false\<close>, is an individual request (its \<open>dataType\<close> is not empty,
  or its URL is neither empty nor \<open>null\<close>) and is no transaction controller; the success
  counter grows for every sample with \<open>success = true\<close>, whatever its kind, a controller
  row included. So after the scan the counters count these samples among all the samples
  read, and the returned object carries the same counters and list.
\<close>

theorem tally_of_errors_and_successes:
  "(processSample st0 s = Inr st1 \<longrightarrow>
      totalErrorCount st1 = totalErrorCount st0
        + (if \<not> success s \<and> (dataType s \<noteq> [] \<or> (url s \<noteq> [] \<and> url s \<noteq> ''null''))
              \<and> \<not> isTransactionController s then 1 else 0)
    \<and> errors st1 = errors st0
        @ (if \<not> success s \<and> (dataType s \<noteq> [] \<or> (url s \<noteq> [] \<and> url s \<noteq> ''null''))
              \<and> \<not> isTransactionController s
           then [\<lparr>errorLabel = label s, errorResponseCode = responseCode s,
                  errorResponseMessage = responseMessage s,
                  errorFailureMessage = failureMessage s\<rparr>]
           else [])
    \<and> totalSuccessCount st1 = totalSuccessCount st0 + (if success s then 1 else 0))
   \<and> (scanCSV csv = Inr (Some st) \<longrightarrow>
        (\<exists>header rows. nonBlankLines csv = header # rows
           \<and> allSamples st
              = map (\<lambda>l. makeSample (headerIndices (parseCSVLine header)) (parseCSVLine l))
                  (filter (\<lambda>l. int (length (parseCSVLine l))
                                > max (labelIndex (headerIndices (parseCSVLine header)))
                                      (elapsedIndex (headerIndices (parseCSVLine header)))) rows))
      \<and> totalErrorCount st
          = length (filter (\<lambda>s. \<not> success s
                               \<and> (dataType s \<noteq> [] \<or> (url s \<noteq> [] \<and> url s \<noteq> ''null''))
                               \<and> \<not> isTransactionController s) (allSamples st))
      \<and> errors st
          = map (\<lambda>s. \<lparr>errorLabel = label s, errorResponseCode = responseCode s,
                       errorResponseMessage = responseMessage s,
                       errorFailureMessage = failureMessage s\<rparr>)
                (filter (\<lambda>s. \<not> success s
                               \<and> (dataType s \<noteq> [] \<or> (url s \<noteq> [] \<and> url s \<noteq> ''null''))
                               \<and> \<not> isTransactionController s) (allSamples st))
      \<and> totalSuccessCount st = length (filter success (allSamples st)))
   \<and> (parseJMeterResults csv = Some r \<longrightarrow>
        (\<exists>st. scanCSV csv = Inr (Some st) \<and> resultErrorCount r = totalErrorCount st
            \<and> resultSuccessCount r = totalSuccessCount st \<and> resultErrors r = errors st))"
proof (intro conjI impI)
  assume a: "processSample st0 s = Inr st1"
  note t = processSample_tally [OF a]
  show "totalErrorCount st1 = totalErrorCount st0
        + (if \<not> success s \<and> (dataType s \<noteq> [] \<or> (url s \<noteq> [] \<and> url s \<noteq> ''null''))
              \<and> \<not> isTransactionController s then 1 else 0)"
    using t by (simp add: trackErrors_def isIndividualRequest_def)
  show "errors st1 = errors st0
        @ (if \<not> success s \<and> (dataType s \<noteq> [] \<or> (url s \<noteq> [] \<and> url s \<noteq> ''null''))
              \<and> \<not> isTransactionController s
           then [\<lparr>errorLabel = label s, errorResponseCode = responseCode s,
                  errorResponseMessage = responseMessage s,
                  errorFailureMessage = failureMessage s\<rparr>]
           else [])"
    using t by (simp add: trackErrors_def isIndividualRequest_def)
  show "totalSuccessCount st1 = totalSuccessCount st0 + (if success s then 1 else 0)"
    using t by (simp add: trackErrors_def)
next
  assume a: "scanCSV csv = Inr (Some st)"
  have ind: "isIndividualRequest = (\<lambda>s. dataType s \<noteq> [] \<or> (url s \<noteq> [] \<and> url s \<noteq> ''null''))"
    by (auto simp: isIndividualRequest_def fun_eq_iff)
  note inv = scanCSV_tallyInvariant [OF a, unfolded tallyInvariant_def ind]
  show "totalErrorCount st
          = length (filter (\<lambda>s. \<not> success s
                               \<and> (dataType s \<noteq> [] \<or> (url s \<noteq> [] \<and> url s \<noteq> ''null''))
                               \<and> \<not> isTransactionController s) (allSamples st))"
    using inv by blast
  show "errors st
          = map (\<lambda>s. \<lparr>errorLabel = label s, errorResponseCode = responseCode s,
                       errorResponseMessage = responseMessage s,
                       errorFailureMessage = failureMessage s\<rparr>)
                (filter (\<lambda>s. \<not> success s
                               \<and> (dataType s \<noteq> [] \<or> (url s \<noteq> [] \<and> url s \<noteq> ''null''))
                               \<and> \<not> isTransactionController s) (allSamples st))"
    using inv by blast
  show "totalSuccessCount st = length (filter success (allSamples st))"
    using inv by blast
  obtain header rows where hr: "nonBlankLines csv = header # rows"
    "processLines (headerIndices (parseCSVLine header)) initialState rows = Inr st"
    using scanCSV_processLines [OF a] by blast
  have "allSamples st = allSamples initialState
      @ map (\<lambda>l. makeSample (headerIndices (parseCSVLine header)) (parseCSVLine l))
                  (filter (\<lambda>l. int (length (parseCSVLine l))
                                > max (labelIndex (headerIndices (parseCSVLine header)))
                                      (elapsedIndex (headerIndices (parseCSVLine header)))) rows)"
    using processLines_allSamples [OF hr(2)] .
  then show "\<exists>header rows. nonBlankLines csv = header # rows
           \<and> allSamples st
              = map (\<lambda>l. makeSample (headerIndices (parseCSVLine header)) (parseCSVLine l))
                  (filter (\<lambda>l. int (length (parseCSVLine l))
                                > max (labelIndex (headerIndices (parseCSVLine header)))
                                      (elapsedIndex (headerIndices (parseCSVLine header)))) rows)"
    using hr(1) by (simp add: initialState_def)
next
  assume a: "parseJMeterResults csv = Some r"
  then obtain st where "scanCSV csv = Inr (Some st)" "r = finalizeResult st"
    using parseJMeterResults_scan by blast
  then show "\<exists>st. scanCSV csv = Inr (Some st) \<and> resultErrorCount r = totalErrorCount st
            \<and> resultSuccessCount r = totalSuccessCount st \<and> resultErrors r = errors st"
    by (simp add: finalizeResult_def Let_def)
qed

theorem tally_of_errors_and_successes_witness:
  "(\<exists>st1. processSample initialState failedRequest = Inr st1
        \<and> totalErrorCount st1 = 1 \<and> totalSuccessCount st1 = 0
        \<and> errors st1 = [\<lparr>errorLabel = ''GET /a'', errorResponseCode = ''500'',
                          errorResponseMessage = ''Server Error'', errorFailureMessage = []\<rparr>])
   \<and> (\<exists>st r. scanCSV tallyCSV = Inr (Some st) \<and> parseJMeterResults tallyCSV = Some r
        \<and> length (allSamples st) = 3
        \<and> totalErrorCount st
          = length (filter (\<lambda>s. \<not> success s
                               \<and> (dataType s \<noteq> [] \<or> (url s \<noteq> [] \<and> url s \<noteq> ''null''))
                               \<and> \<not> isTransactionController s) (allSamples st))
        \<and> totalSuccessCount st = length (filter success (allSamples st))
        \<and> resultErrorCount r = 1 \<and> resultSuccessCount r = 2)"
proof -
  have "case processSample initialState failedRequest of Inl _ \<Rightarrow> False | Inr _ \<Rightarrow> True"
    by code_simp
  then obtain st1 where s1: "processSample initialState failedRequest = Inr st1"
    by (auto split: sum.splits)
  have "case scanCSV tallyCSV of Inr (Some st) \<Rightarrow>
          length (allSamples st) = 3 \<and> totalErrorCount st = 1 \<and> totalSuccessCount st = 2
        | _ \<Rightarrow> False"
    by code_simp
  then obtain st where s2: "scanCSV tallyCSV = Inr (Some st)" "length (allSamples st) = 3"
      "totalErrorCount st = 1" "totalSuccessCount st = 2"
    by (auto split: sum.splits option.splits)
  then obtain r where s3: "parseJMeterResults tallyCSV = Some r"
    by (simp add: parseJMeterResults_def parseJMeterResults_body_def)
  have f: "\<not> success failedRequest" "dataType failedRequest \<noteq> []"
      "\<not> isTransactionController failedRequest"
    by (simp_all add: failedRequest_def isTransactionController_def)
  have i: "totalErrorCount initialState = 0" "totalSuccessCount initialState = 0" "errors initialState = []"
    by (simp_all add: initialState_def)
  show ?thesis
    using tally_of_errors_and_successes [of initialState failedRequest st1 tallyCSV st r] s1 s2 s3 f i
    by (auto simp: failedRequest_def)
qed

lemma processLines_append:
  "processLines h st (xs @ ys) =
     (case processLines h st xs of Inl e \<Rightarrow> Inl e | Inr st' \<Rightarrow> processLines h st' ys)"
  by (induction xs arbitrary: st) (simp_all split: sum.splits)

lemma nonBlankLines_shorter:
  "length (nonBlankLines csv) \<le> length (filter (\<lambda>l. l \<noteq> []) (split_lines csv))"
proof -
  have "trim l \<noteq> [] \<Longrightarrow> l \<noteq> []" for l by (auto simp: trim_def)
  then have "nonBlankLines csv = filter (\<lambda>l. trim l \<noteq> []) (filter (\<lambda>l. l \<noteq> []) (split_lines csv))"
    unfolding nonBlankLines_def filter_filter by (intro filter_cong) auto
  then show ?thesis by (metis length_filter_le)
qed

lemma scanCSV_few_lines:
  assumes "length (nonBlankLines csv) < 2"
  shows "scanCSV csv = Inr None"
proof (cases "nonBlankLines csv")
  case Nil
  then show ?thesis by (simp add: scanCSV_def)
next
  case (Cons header rows)
  then have "rows = []" using assms by simp
  then show ?thesis using Cons by (simp add: scanCSV_def)
qed

lemma scanCSV_missing_column:
  assumes "nonBlankLines csv = header # rows"
    and "''label'' \<notin> set (parseCSVLine header) \<or> ''elapsed'' \<notin> set (parseCSVLine header)"
  shows "scanCSV csv = Inr None"
proof (cases rows)
  case Nil
  then show ?thesis using assms(1) by (simp add: scanCSV_def)
next
  case (Cons row rows')
  have "labelIndex (headerIndices (parseCSVLine header)) = - 1
      \<or> elapsedIndex (headerIndices (parseCSVLine header)) = - 1"
    using assms(2) by (simp add: headerIndices_def indexOf_absent)
  then show ?thesis using assms(1) Cons by (simp add: scanCSV_def Let_def)
qed

text \<open>
  Claim C4. \<^verbatim>\<open>parseJMeterResults\<close> returns \<^verbatim>\<open>null\<close>, and raises nothing, when fewer than
  two lines of the file are left after the blank ones are dropped (so also when fewer than
  two lines are not empty), and when the header has no \<^verbatim>\<open>label\<close> or no \<^verbatim>\<open>elapsed\<close>
  column. An exception raised inside the body is caught and gives \<^verbatim>\<open>null\<close>. A row with
  too few fields to reach both column indices leaves every variable of the scan as it was,
  so the scan of a file with such a row equals the scan without it.
\<close>

theorem malformed_input_gives_null:
  "(length (nonBlankLines csv1) < 2 \<longrightarrow>
      parseJMeterResults_body csv1 = Inr None \<and> parseJMeterResults csv1 = None)
   \<and> (length (filter (\<lambda>l. l \<noteq> []) (split_lines csv2)) < 2 \<longrightarrow>
      parseJMeterResults_body csv2 = Inr None \<and> parseJMeterResults csv2 = None)
   \<and> (nonBlankLines csv3 = header # rows
        \<and> (''label'' \<notin> set (parseCSVLine header) \<or> ''elapsed'' \<notin> set (parseCSVLine header)) \<longrightarrow>
      parseJMeterResults_body csv3 = Inr None \<and> parseJMeterResults csv3 = None)
   \<and> (parseJMeterResults_body csv4 = Inl e \<longrightarrow> parseJMeterResults csv4 = None)
   \<and> (int (length (parseCSVLine line)) \<le> max (labelIndex h) (elapsedIndex h) \<longrightarrow>
      processLine h st line = Inr st
      \<and> processLines h st (before @ line # after) = processLines h st (before @ after))"
proof (intro conjI impI)
  assume "length (nonBlankLines csv1) < 2"
  then have "scanCSV csv1 = Inr None" by (rule scanCSV_few_lines)
  then show "parseJMeterResults_body csv1 = Inr None" "parseJMeterResults csv1 = None"
    by (simp_all add: parseJMeterResults_def parseJMeterResults_body_def)
next
  assume "length (filter (\<lambda>l. l \<noteq> []) (split_lines csv2)) < 2"
  then have "length (nonBlankLines csv2) < 2"
    using nonBlankLines_shorter [of csv2] by linarith
  then have "scanCSV csv2 = Inr None" by (rule scanCSV_few_lines)
  then show "parseJMeterResults_body csv2 = Inr None" "parseJMeterResults csv2 = None"
    by (simp_all add: parseJMeterResults_def parseJMeterResults_body_def)
next
  assume "nonBlankLines csv3 = header # rows
        \<and> (''label'' \<notin> set (parseCSVLine header) \<or> ''elapsed'' \<notin> set (parseCSVLine header))"
  then have "scanCSV csv3 = Inr None" using scanCSV_missing_column by blast
  then show "parseJMeterResults_body csv3 = Inr None" "parseJMeterResults csv3 = None"
    by (simp_all add: parseJMeterResults_def parseJMeterResults_body_def)
next
  assume "parseJMeterResults_body csv4 = Inl e"
  then show "parseJMeterResults csv4 = None" by (simp add: parseJMeterResults_def)
next
  assume "int (length (parseCSVLine line)) \<le> max (labelIndex h) (elapsedIndex h)"
  then have short: "\<not> int (length (parseCSVLine line)) > max (labelIndex h) (elapsedIndex h)"
    by linarith
  show "processLine h st line = Inr st" using short by (rule processLine_short)
  have "processLine h st' line = Inr st'" for st' using short by (rule processLine_short)
  then show "processLines h st (before @ line # after) = processLines h st (before @ after)"
    by (simp add: processLines_append split: sum.splits)
qed

theorem malformed_input_gives_null_witness:
  "length (nonBlankLines headerOnlyCSV) < 2 \<and> parseJMeterResults headerOnlyCSV = None
   \<and> length (filter (\<lambda>l. l \<noteq> []) (split_lines ''label,elapsed'')) < 2
   \<and> parseJMeterResults ''label,elapsed'' = None
   \<and> nonBlankLines noLabelCSV = [''name,elapsed'', ''a,1'']
   \<and> ''label'' \<notin> set (parseCSVLine ''name,elapsed'')
   \<and> parseJMeterResults_body noLabelCSV = Inr None
   \<and> parseJMeterResults_body prototypeKeyCSV = Inl TypeError
   \<and> parseJMeterResults prototypeKeyCSV = None
   \<and> int (length (parseCSVLine ''POST /login''))
        \<le> max (labelIndex (headerIndices [''label'', ''elapsed'']))
              (elapsedIndex (headerIndices [''label'', ''elapsed'']))
   \<and> processLine (headerIndices [''label'', ''elapsed'']) initialState ''POST /login'' = Inr initialState
   \<and> processLines (headerIndices [''label'', ''elapsed'']) initialState ([''a,1''] @ ''POST /login'' # [''b,2''])
       = processLines (headerIndices [''label'', ''elapsed'']) initialState ([''a,1''] @ [''b,2''])"
proof -
  have h1: "length (nonBlankLines headerOnlyCSV) < 2"
    by (simp add: headerOnlyCSV_def nonBlankLines_def split_lines_def trim_def isSpace_def)
  have h2: "length (filter (\<lambda>l. l \<noteq> []) (split_lines ''label,elapsed'')) < 2"
    by (simp add: split_lines_def)
  have h3: "nonBlankLines noLabelCSV = [''name,elapsed'', ''a,1'']"
    by (simp add: noLabelCSV_def nonBlankLines_def split_lines_def trim_def isSpace_def)
  have h3': "''label'' \<notin> set (parseCSVLine ''name,elapsed'')"
    by (simp add: parseCSVLine_def dquote_def comma_def)
  have "case parseJMeterResults_body prototypeKeyCSV of Inl _ \<Rightarrow> True | Inr _ \<Rightarrow> False"
    by code_simp
  then have h4: "parseJMeterResults_body prototypeKeyCSV = Inl TypeError"
    by (cases "parseJMeterResults_body prototypeKeyCSV") (auto intro: js_exception.exhaust)
  have h5: "int (length (parseCSVLine ''POST /login''))
        \<le> max (labelIndex (headerIndices [''label'', ''elapsed'']))
              (elapsedIndex (headerIndices [''label'', ''elapsed'']))"
    by (simp add: parseCSVLine_def dquote_def comma_def headerIndices_def)
  show ?thesis
    using h1 h2 h3 h3' h4 h5
      malformed_input_gives_null [of headerOnlyCSV "''label,elapsed''" noLabelCSV
        "''name,elapsed''" "[''a,1'']" prototypeKeyCSV TypeError "''POST /login''"
        "headerIndices [''label'', ''elapsed'']" initialState "[''a,1'']" "[''b,2'']"]
    by simp
qed

lemma digitChar_isDigit: "d < 10 \<Longrightarrow> isDigit (digitChar d)"
proof -
  assume "d < 10"
  then have "d \<in> {0, 1, 2, 3, 4, 5, 6, 7, 8, 9}" by auto
  then show ?thesis by (auto simp: digitChar_def isDigit_def)
qed

lemma decimalDigits_digits: "decimalDigits n \<noteq> [] \<and> list_all isDigit (decimalDigits n)"
proof (induction n rule: decimalDigits.induct)
  case (1 n)
  show ?case
  proof (cases "n < 10")
    case True
    then show ?thesis using digitChar_isDigit [of n] by (subst (1 2) decimalDigits.simps) simp
  next
    case False
    then show ?thesis
      using 1 digitChar_isDigit [of "n mod 10"] by (subst (1 2) decimalDigits.simps) simp
  qed
qed

lemma toFixed2_shape:
  assumes "0 \<le> x"
  shows "\<exists>ds d1 d2. toFixed2 x = ds @ ''.'' @ [d1, d2] \<and> ds \<noteq> [] \<and> list_all isDigit ds
            \<and> isDigit d1 \<and> isDigit d2"
proof -
  define n where "n = nat \<lfloor>\<bar>x\<bar> * 100 + 1 / 2\<rfloor>"
  have "toFixed2 x = decimalDigits (n div 100) @ ''.'' @ [digitChar (n mod 100 div 10), digitChar (n mod 10)]"
    using assms by (simp add: toFixed2_def n_def Let_def)
  moreover have "isDigit (digitChar (n mod 100 div 10))" by (rule digitChar_isDigit) simp
  moreover have "isDigit (digitChar (n mod 10))" by (rule digitChar_isDigit) simp
  ultimately show ?thesis using decimalDigits_digits [of "n div 100"] by blast
qed

lemma scanCSV_parseJMeterResults:
  "scanCSV csv = Inr (Some st) \<Longrightarrow> parseJMeterResults csv = Some (finalizeResult st)"
  by (simp add: parseJMeterResults_def parseJMeterResults_body_def)

lemma toFixed2_nearest:
  assumes "0 \<le> x"
  shows "\<exists>n. toFixed2 x = decimalDigits (n div 100) @ ''.'' @ [digitChar (n mod 100 div 10), digitChar (n mod 10)]
            \<and> \<bar>of_nat n - 100 * x\<bar> \<le> 1 / 2"
proof -
  define n where "n = nat \<lfloor>\<bar>x\<bar> * 100 + 1 / 2\<rfloor>"
  have "0 \<le> \<lfloor>x * 100 + 1 / 2\<rfloor>" using assms by simp
  then have "(of_nat n :: rat) = of_int \<lfloor>x * 100 + 1 / 2\<rfloor>" using assms by (simp add: n_def)
  then have "\<bar>of_nat n - 100 * x\<bar> \<le> 1 / 2" by linarith
  moreover have "toFixed2 x = decimalDigits (n div 100) @ ''.'' @ [digitChar (n mod 100 div 10), digitChar (n mod 10)]"
    using assms by (simp add: toFixed2_def n_def Let_def)
  ultimately show ?thesis by blast
qed

lemma toFixed2_value:
  assumes "0 \<le> x" and "of_nat n \<le> x * 100 + 1 / 2" and "x * 100 + 1 / 2 < of_nat n + 1"
  shows "toFixed2 x = decimalDigits (n div 100) @ ''.'' @ [digitChar (n mod 100 div 10), digitChar (n mod 10)]"
proof -
  have "\<lfloor>x * 100 + 1 / 2\<rfloor> = int n"
    using assms(2, 3) by (intro floor_unique) simp_all
  then have "nat \<lfloor>\<bar>x\<bar> * 100 + 1 / 2\<rfloor> = n" using assms(1) by simp
  then show ?thesis using assms(1) by (simp add: toFixed2_def Let_def)
qed

lemma js_percentage_nonneg: "0 \<le> js_mul (js_div (of_nat a) (of_nat b)) 100"
proof -
  have "0 \<le> js_div (of_nat a) (of_nat b)"
    unfolding js_div_def by (rule roundToDouble_nonneg) simp
  then show ?thesis unfolding js_mul_def by (intro roundToDouble_nonneg) simp
qed

text \<open>The quotient and the product are rounded: 23 successes and 137 errors give the number
  14.374999999999998, not 14.375, and the text \<^verbatim>\<open>14.37\<close>.\<close>

lemma js_percentage_23_160: "js_mul (js_div 23 160) 100 = 8092405580431359 / 2 ^ 49"
  by code_simp

lemma js_percentage_2_3: "js_mul (js_div 2 3) 100 = 4691249611844266 / 2 ^ 46"
  by code_simp

lemma toFixed2_14_37: "toFixed2 (8092405580431359 / 2 ^ 49) = ''14.37''"
proof -
  have "toFixed2 (8092405580431359 / 2 ^ 49)
          = decimalDigits (1437 div 100) @ ''.'' @ [digitChar (1437 mod 100 div 10), digitChar (1437 mod 10)]"
    by (rule toFixed2_value) simp_all
  then show ?thesis by (simp add: decimalDigits.simps digitChar_def)
qed

lemma toFixed2_66_67: "toFixed2 (4691249611844266 / 2 ^ 46) = ''66.67''"
proof -
  have "toFixed2 (4691249611844266 / 2 ^ 46)
          = decimalDigits (6667 div 100) @ ''.'' @ [digitChar (6667 mod 100 div 10), digitChar (6667 mod 10)]"
    by (rule toFixed2_value) simp_all
  then show ?thesis by (simp add: decimalDigits.simps digitChar_def)
qed

lemma toFixed2_percentage_23_160: "toFixed2 (js_mul (js_div 23 160) 100) = ''14.37''"
  unfolding js_percentage_23_160 by (rule toFixed2_14_37)

lemma toFixed2_percentage_2_3: "toFixed2 (js_mul (js_div 2 3) 100) = ''66.67''"
  unfolding js_percentage_2_3 by (rule toFixed2_66_67)

text \<open>
  Claim C10. In the returned object \<^verbatim>\<open>totalRequests\<close> is the sum of the two counters. When
  the sum is zero \<^verbatim>\<open>passPercentage\<close> is the number 100; when it is positive
  \<^verbatim>\<open>passPercentage\<close> is a string, \<^verbatim>\<open>toFixed(2)\<close> of the number that the code computes as the
  success count over the sum, times 100, each operation rounded to binary64: digits, a point
  and exactly two digits, for the integer number of hundredths nearest to that number. So the
  field is a number in one case and a string in the other. With 23 successes and 137 errors
  the string is \<^verbatim>\<open>14.37\<close>, the computed number being just below 14.375.
\<close>

theorem passPercentage_number_or_string:
  "(parseJMeterResults csv = Some r \<longrightarrow>
     totalRequests r = resultSuccessCount r + resultErrorCount r
   \<and> (resultSuccessCount r + resultErrorCount r = 0 \<longrightarrow> passPercentage r = JSNumber 100)
   \<and> (resultSuccessCount r + resultErrorCount r > 0 \<longrightarrow>
        passPercentage r
          = JSString (toFixed2 (js_mul (js_div (of_nat (resultSuccessCount r))
                                               (of_nat (resultSuccessCount r + resultErrorCount r))) 100))
      \<and> (\<exists>ds d1 d2. passPercentage r = JSString (ds @ ''.'' @ [d1, d2])
              \<and> ds \<noteq> [] \<and> list_all isDigit ds \<and> isDigit d1 \<and> isDigit d2)
      \<and> (\<exists>n. passPercentage r
                 = JSString (decimalDigits (n div 100) @ ''.''
                               @ [digitChar (n mod 100 div 10), digitChar (n mod 10)])
              \<and> \<bar>of_nat n - 100 * js_mul (js_div (of_nat (resultSuccessCount r))
                                   (of_nat (resultSuccessCount r + resultErrorCount r))) 100\<bar> \<le> 1 / 2)))
   \<and> (totalSuccessCount st = 23 \<and> totalErrorCount st = 137 \<longrightarrow>
        passPercentage (finalizeResult st) = JSString ''14.37'')"
proof (intro conjI impI)
  assume "totalSuccessCount st = 23 \<and> totalErrorCount st = 137"
  then show "passPercentage (finalizeResult st) = JSString ''14.37''"
    by (simp add: finalizeResult_def Let_def toFixed2_percentage_23_160)
next
  assume "parseJMeterResults csv = Some r"
  then obtain st' where st: "scanCSV csv = Inr (Some st')" "r = finalizeResult st'"
    using parseJMeterResults_scan by blast
  let ?x = "js_mul (js_div (of_nat (resultSuccessCount r))
                           (of_nat (resultSuccessCount r + resultErrorCount r))) 100"
  have nonneg: "0 \<le> ?x" by (rule js_percentage_nonneg)
  have fields: "resultSuccessCount r = totalSuccessCount st'" "resultErrorCount r = totalErrorCount st'"
      "totalRequests r = totalSuccessCount st' + totalErrorCount st'"
    using st(2) by (simp_all add: finalizeResult_def Let_def)
  show total: "totalRequests r = resultSuccessCount r + resultErrorCount r"
    using fields by simp
  show "passPercentage r = JSNumber 100" if "resultSuccessCount r + resultErrorCount r = 0"
    using st(2) that by (simp add: finalizeResult_def Let_def)
  show pos: "passPercentage r = JSString (toFixed2 ?x)" if "resultSuccessCount r + resultErrorCount r > 0"
    using st(2) that by (simp add: finalizeResult_def Let_def)
  show "\<exists>ds d1 d2. passPercentage r = JSString (ds @ ''.'' @ [d1, d2])
              \<and> ds \<noteq> [] \<and> list_all isDigit ds \<and> isDigit d1 \<and> isDigit d2"
    if "resultSuccessCount r + resultErrorCount r > 0"
    using toFixed2_shape [OF nonneg] pos [OF that] by auto
  show "\<exists>n. passPercentage r
                 = JSString (decimalDigits (n div 100) @ ''.''
                               @ [digitChar (n mod 100 div 10), digitChar (n mod 10)])
              \<and> \<bar>of_nat n - 100 * ?x\<bar> \<le> 1 / 2"
    if "resultSuccessCount r + resultErrorCount r > 0"
    using toFixed2_nearest [OF nonneg] pos [OF that] by auto
qed

theorem passPercentage_number_or_string_witness:
  "(\<exists>r. parseJMeterResults uncountedCSV = Some r
        \<and> resultSuccessCount r + resultErrorCount r = 0 \<and> passPercentage r = JSNumber 100)
   \<and> (\<exists>r. parseJMeterResults tallyCSV = Some r
        \<and> resultSuccessCount r + resultErrorCount r > 0 \<and> passPercentage r = JSString ''66.67'')
   \<and> totalSuccessCount (initialState\<lparr>totalSuccessCount := 23, totalErrorCount := 137\<rparr>) = 23
   \<and> totalErrorCount (initialState\<lparr>totalSuccessCount := 23, totalErrorCount := 137\<rparr>) = 137
   \<and> passPercentage (finalizeResult (initialState\<lparr>totalSuccessCount := 23, totalErrorCount := 137\<rparr>))
       = JSString ''14.37''"
proof -
  have "case scanCSV uncountedCSV of
          Inr (Some st) \<Rightarrow> totalSuccessCount st = 0 \<and> totalErrorCount st = 0 | _ \<Rightarrow> False"
    by code_simp
  then obtain st0 where st0: "scanCSV uncountedCSV = Inr (Some st0)"
      "totalSuccessCount st0 = 0" "totalErrorCount st0 = 0"
    by (auto split: sum.splits option.splits)
  define r0 where "r0 = finalizeResult st0"
  have r0: "parseJMeterResults uncountedCSV = Some r0"
      "resultSuccessCount r0 + resultErrorCount r0 = 0"
    using st0 by (simp_all add: r0_def scanCSV_parseJMeterResults finalizeResult_def Let_def)
  have "case scanCSV tallyCSV of
          Inr (Some st) \<Rightarrow> totalSuccessCount st = 2 \<and> totalErrorCount st = 1 | _ \<Rightarrow> False"
    by code_simp
  then obtain st1 where st1: "scanCSV tallyCSV = Inr (Some st1)"
      "totalSuccessCount st1 = 2" "totalErrorCount st1 = 1"
    by (auto split: sum.splits option.splits)
  define r1 where "r1 = finalizeResult st1"
  have r1: "parseJMeterResults tallyCSV = Some r1"
      "resultSuccessCount r1 = 2" "resultErrorCount r1 = 1"
    using st1 by (simp_all add: r1_def scanCSV_parseJMeterResults finalizeResult_def Let_def)
  define st2 where "st2 = initialState\<lparr>totalSuccessCount := 23, totalErrorCount := 137\<rparr>"
  have st2: "totalSuccessCount st2 = 23" "totalErrorCount st2 = 137" by (simp_all add: st2_def)
  have "passPercentage r0 = JSNumber 100"
    using passPercentage_number_or_string [of uncountedCSV r0 st2] r0 by simp
  moreover have "passPercentage r1 = JSString ''66.67''"
    using passPercentage_number_or_string [of tallyCSV r1 st2] r1
    by (simp add: toFixed2_percentage_2_3)
  moreover have "passPercentage (finalizeResult st2) = JSString ''14.37''"
    using passPercentage_number_or_string [of tallyCSV r1 st2] st2 by blast
  ultimately show ?thesis using r0 r1 st2 unfolding st2_def by simp
qed

section \<open>The child-capture window\<close>

subsection \<open>The expected count is a natural number\<close>

lemma matchCountAt_digits: "matchCountAt s = Some ds \<Longrightarrow> ds \<noteq> [] \<and> (\<forall>c \<in> set ds. isDigit c)"
  by (auto simp: matchCountAt_def Let_def split: if_splits list.splits dest: set_takeWhileD)

lemma matchCount_digits: "matchCount s = Some ds \<Longrightarrow> ds \<noteq> [] \<and> (\<forall>c \<in> set ds. isDigit c)"
proof (induction s)
  case Nil
  then show ?case using matchCountAt_digits [of "[]" ds] by simp
next
  case (Cons c s)
  then show ?case using matchCountAt_digits [of "c # s" ds] by (auto split: option.splits)
qed

lemma isDigit_not_isSpace: "isDigit c \<Longrightarrow> \<not> isSpace c"
  by (auto simp: isDigit_def isSpace_def)

lemma digitValue_nonneg: "isDigit c \<Longrightarrow> 0 \<le> digitValue c"
  by (auto simp: isDigit_def digitValue_def)

lemma numberOfDigits_nonneg:
  assumes "\<forall>c \<in> set ds. isDigit c"
  shows "0 \<le> numberOfDigits 10 ds"
proof -
  have "0 \<le> n \<Longrightarrow> \<forall>c \<in> set ds. isDigit c \<Longrightarrow> 0 \<le> foldl (\<lambda>n c. n * 10 + digitValue c) n ds" for n
  proof (induction ds arbitrary: n)
    case Nil
    then show ?case by simp
  next
    case (Cons c ds)
    have "0 \<le> n * 10 + digitValue c" using Cons.prems digitValue_nonneg [of c] by simp
    then show ?case using Cons by simp
  qed
  then show ?thesis using assms by (simp add: numberOfDigits_def)
qed

lemma parseInt_digits:
  assumes "ds \<noteq> []" and "\<forall>c \<in> set ds. isDigit c"
  shows "parseInt ds = Some (doubleOfInt (numberOfDigits 10 ds))"
proof -
  obtain c cs where ds: "ds = c # cs" using assms(1) by (cases ds) auto
  have c: "isDigit c" using assms(2) ds by simp
  have sp: "dropWhile isSpace ds = ds" using ds c isDigit_not_isSpace by simp
  have sign: "take 1 ds \<noteq> ''-''" "take 1 ds \<noteq> ''+''"
    using ds c by (auto simp: isDigit_def)
  have hex: "take 2 ds \<noteq> ''0x''" "take 2 ds \<noteq> ''0X''"
  proof -
    have "\<not> isDigit CHR ''x''" "\<not> isDigit CHR ''X''" by (simp_all add: isDigit_def)
    then show "take 2 ds \<noteq> ''0x''" "take 2 ds \<noteq> ''0X''"
      using assms(2) ds by (cases cs; auto)+
  qed
  show ?thesis using sp sign hex assms
    by (simp add: parseInt_def Let_def takeWhile_eq_all_conv [THEN iffD2])
qed

lemma expectedCountOf_nonneg: "0 \<le> expectedCountOf message"
proof (cases "matchCount message")
  case None
  then show ?thesis by (simp add: expectedCountOf_def)
next
  case (Some ds)
  then have "parseInt ds = Some (doubleOfInt (numberOfDigits 10 ds))" "0 \<le> numberOfDigits 10 ds"
    using matchCount_digits [OF Some] parseInt_digits numberOfDigits_nonneg by auto
  then show ?thesis using Some doubleOfInt_nonneg by (simp add: expectedCountOf_def)
qed

text \<open>So the branch of \<^term>\<open>expectedCountOf\<close> for \<^verbatim>\<open>NaN\<close> is never taken.\<close>

lemma expectedCountOf_digits:
  "matchCount message = Some ds \<Longrightarrow> expectedCountOf message = doubleOfInt (numberOfDigits 10 ds)"
  using matchCount_digits parseInt_digits by (simp add: expectedCountOf_def)

subsection \<open>What the two branches do\<close>

lemma groupController_result:
  assumes "groupController st s = Inr st'"
  shows "\<exists>t0 t3.
      t0 = (case transactions st (label s) of None \<Rightarrow> newTransaction (label s) | Some t \<Rightarrow> t)
    \<and> transactions st' = (transactions st)(label s \<mapsto> t3)
    \<and> samples t3 = samples t0 @ [s]
    \<and> childRequests t3 = childRequests t0
    \<and> childRequestsByExecution t3
        = (case js_nth (childRequestsByExecution t0) (int (length (samples t0))) of
             Some (Some c) \<Rightarrow> childRequestsByExecution t0
           | _ \<Rightarrow> js_assign (childRequestsByExecution t0) (length (samples t0)) [])
    \<and> currentTransaction st' = Some (label s)
    \<and> currentTransactionExecutionIndex st' = int (length (samples t0))
    \<and> expectedChildRequestCount st' = expectedCountOf (responseMessage s)
    \<and> collectedChildRequestCount st' = 0"
proof -
  have ok: "label s \<notin> set objectPrototypeKeys"
    using assms by (auto simp: groupController_def Let_def split: if_splits)
  define t0 where "t0 = (case transactions st (label s) of None \<Rightarrow> newTransaction (label s) | Some t \<Rightarrow> t)"
  define t1 where "t1 = t0\<lparr>samples := samples t0 @ [s], totalSamples := totalSamples t0 + 1\<rparr>"
  define t2 where "t2 = (if success s then t1\<lparr>successCount := successCount t1 + 1\<rparr>
                     else t1\<lparr>errorCount := errorCount t1 + 1\<rparr>)"
  define t3 where "t3 = (case js_nth (childRequestsByExecution t2) (int (length (samples t0))) of
                       Some (Some _) \<Rightarrow> t2
                     | _ \<Rightarrow> t2\<lparr>childRequestsByExecution :=
                                 js_assign (childRequestsByExecution t2) (length (samples t0)) []\<rparr>)"
  have st': "st' = st\<lparr>controllerSamples := controllerSamples st @ [s],
                      transactions := (transactions st)(label s \<mapsto> t3),
                      currentTransaction := Some (label s),
                      currentTransactionExecutionIndex := int (length (samples t0)),
                      expectedChildRequestCount := expectedCountOf (responseMessage s),
                      collectedChildRequestCount := 0\<rparr>"
    using assms ok unfolding groupController_def Let_def t3_def t2_def t1_def t0_def
    by (simp only: if_False sum.inject)
  have t2: "samples t2 = samples t0 @ [s]" "childRequests t2 = childRequests t0"
      "childRequestsByExecution t2 = childRequestsByExecution t0"
    by (simp_all add: t2_def t1_def)
  have t3: "samples t3 = samples t0 @ [s]" "childRequests t3 = childRequests t0"
      "childRequestsByExecution t3
        = (case js_nth (childRequestsByExecution t0) (int (length (samples t0))) of
             Some (Some c) \<Rightarrow> childRequestsByExecution t0
           | _ \<Rightarrow> js_assign (childRequestsByExecution t0) (length (samples t0)) [])"
    using t2 by (simp_all add: t3_def split: option.splits)
  show ?thesis
    using t3 t0_def by (intro exI [of _ t0] exI [of _ t3]) (simp add: st')
qed

lemma resetCurrent_fields [simp]:
  "transactions (resetCurrent st) = transactions st"
  "currentTransaction (resetCurrent st) = None"
  "currentTransactionExecutionIndex (resetCurrent st) = - 1"
  "expectedChildRequestCount (resetCurrent st) = 0"
  "collectedChildRequestCount (resetCurrent st) = 0"
  by (simp_all add: resetCurrent_def)

lemma collectChild_exhausted:
  assumes "collectChild st s = Inr st'"
    and "expectedChildRequestCount st \<le> collectedChildRequestCount st"
  shows "transactions st' = transactions st \<and> currentTransaction st' = None
       \<and> currentTransactionExecutionIndex st' = - 1
       \<and> expectedChildRequestCount st' = 0 \<and> collectedChildRequestCount st' = 0"
proof -
  have "collectChild st s =
      (if dataType s = [] \<and> responseMessage s \<noteq> [] \<and> includes_str (responseMessage s) transactionMarker
       then Inr (resetCurrent (resetCurrent st)) else Inr (resetCurrent st))"
    using assms(2) by (simp add: collectChild_def Let_def)
  then have "st' = resetCurrent (resetCurrent st) \<or> st' = resetCurrent st"
    using assms(1) by (simp split: if_splits)
  then show ?thesis by auto
qed

lemma collectChild_open:
  assumes "collectChild st s = Inr st'"
    and "collectedChildRequestCount st < expectedChildRequestCount st"
  shows "((dataType s \<noteq> [] \<or> (url s \<noteq> [] \<and> url s \<noteq> ''null''))
          \<and> \<not> (dataType s = [] \<and> responseMessage s \<noteq> []
                 \<and> includes_str (responseMessage s) transactionMarker)
          \<and> (\<exists>t children.
                transactions st (keyOf (currentTransaction st)) = Some t
              \<and> js_nth (childRequestsByExecution t) (currentTransactionExecutionIndex st)
                  = Some (Some children)
              \<and> transactions st' = (transactions st)(keyOf (currentTransaction st) \<mapsto>
                    t\<lparr>childRequests := childRequests t @ [s],
                      childRequestsByExecution :=
                        (childRequestsByExecution t)
                          [nat (currentTransactionExecutionIndex st) := Some (children @ [s])]\<rparr>))
          \<and> currentTransaction st' = currentTransaction st
          \<and> currentTransactionExecutionIndex st' = currentTransactionExecutionIndex st
          \<and> expectedChildRequestCount st' = expectedChildRequestCount st
          \<and> collectedChildRequestCount st' = collectedChildRequestCount st + 1)
       \<or> (dataType s = [] \<and> includes_str (responseMessage s) transactionMarker
          \<and> st' = resetCurrent st)
       \<or> (\<not> (dataType s = [] \<and> includes_str (responseMessage s) transactionMarker)
          \<and> st' = st)"
proof -
  define capture where "capture =
     (((dataType s \<noteq> [] \<or> (url s \<noteq> [] \<and> url s \<noteq> ''null'' \<and> url s \<noteq> []))
             \<and> \<not> (dataType s = [] \<and> responseMessage s \<noteq> []
                    \<and> includes_str (responseMessage s) transactionMarker))
      \<and> (keyOf (currentTransaction st) \<in> set objectPrototypeKeys
           \<or> transactions st (keyOf (currentTransaction st)) \<noteq> None)
      \<and> collectedChildRequestCount st < expectedChildRequestCount st)"
  define captured where "captured =
     (case transactions st (keyOf (currentTransaction st)) of
              None \<Rightarrow> Inl TypeError
            | Some t \<Rightarrow>
                (case js_nth (childRequestsByExecution t) (currentTransactionExecutionIndex st) of
                   Some (Some children) \<Rightarrow>
                     Inr (st\<lparr>transactions := (transactions st)(keyOf (currentTransaction st) \<mapsto>
                               t\<lparr>childRequests := childRequests t @ [s],
                                 childRequestsByExecution :=
                                   (childRequestsByExecution t)
                                     [nat (currentTransactionExecutionIndex st) := Some (children @ [s])]\<rparr>),
                            collectedChildRequestCount := collectedChildRequestCount st + 1\<rparr>)
                 | _ \<Rightarrow> Inl TypeError))"
  have eq: "collectChild st s =
      (if capture then captured
       else if dataType s = [] \<and> responseMessage s \<noteq> []
                 \<and> includes_str (responseMessage s) transactionMarker
       then Inr (resetCurrent st) else Inr st)"
    using assms(2) unfolding capture_def captured_def collectChild_def Let_def
    by (simp only: if_not_P [OF iffD2 [OF not_le]])
  have marker: "includes_str m transactionMarker \<Longrightarrow> m \<noteq> []" for m
    by (cases m) (simp_all add: transactionMarker_def)
  from if_chain_cases [OF assms(1) [unfolded eq]]
  consider (cap) "capture" "captured = Inr st'"
    | (ctrl) "dataType s = [] \<and> responseMessage s \<noteq> [] \<and> includes_str (responseMessage s) transactionMarker"
        "st' = resetCurrent st"
    | (none) "\<not> (dataType s = [] \<and> responseMessage s \<noteq> [] \<and> includes_str (responseMessage s) transactionMarker)"
        "st' = st"
    by auto
  then show ?thesis
  proof cases
    case cap
    from cap(2) obtain t children where tc:
      "transactions st (keyOf (currentTransaction st)) = Some t"
      "js_nth (childRequestsByExecution t) (currentTransactionExecutionIndex st) = Some (Some children)"
      "st' = st\<lparr>transactions := (transactions st)(keyOf (currentTransaction st) \<mapsto>
                               t\<lparr>childRequests := childRequests t @ [s],
                                 childRequestsByExecution :=
                                   (childRequestsByExecution t)
                                     [nat (currentTransactionExecutionIndex st) := Some (children @ [s])]\<rparr>),
                            collectedChildRequestCount := collectedChildRequestCount st + 1\<rparr>"
      unfolding captured_def by (auto split: option.splits)
    have "(dataType s \<noteq> [] \<or> (url s \<noteq> [] \<and> url s \<noteq> ''null''))
          \<and> \<not> (dataType s = [] \<and> responseMessage s \<noteq> []
                 \<and> includes_str (responseMessage s) transactionMarker)"
      using cap(1) unfolding capture_def by blast
    then show ?thesis using tc by simp
  next
    case ctrl
    then show ?thesis by simp
  next
    case none
    then show ?thesis using marker by blast
  qed
qed

subsection \<open>The invariant of the capture\<close>

lemma captureInvariant_fields:
  assumes "transactions st' = transactions st"
    and "currentTransaction st' = currentTransaction st"
    and "currentTransactionExecutionIndex st' = currentTransactionExecutionIndex st"
    and "expectedChildRequestCount st' = expectedChildRequestCount st"
    and "collectedChildRequestCount st' = collectedChildRequestCount st"
  shows "captureInvariant st' = captureInvariant st"
  by (simp add: captureInvariant_def assms)

lemma captureInvariant_closed:
  assumes "captureInvariant st" and "transactions st' = transactions st"
    and "currentTransaction st' = None"
  shows "captureInvariant st'"
  using assms by (simp add: captureInvariant_def)

lemma executionsBounded_newTransaction: "executionsBounded (newTransaction n)"
  by (simp add: executionsBounded_def newTransaction_def)

lemma executionsBounded_controller:
  assumes "executionsBounded t0"
    and "samples t3 = samples t0 @ [s]"
    and "childRequestsByExecution t3
        = (case js_nth (childRequestsByExecution t0) (int (length (samples t0))) of
             Some (Some c) \<Rightarrow> childRequestsByExecution t0
           | _ \<Rightarrow> js_assign (childRequestsByExecution t0) (length (samples t0)) [])"
  shows "executionsBounded t3
       \<and> childRequestsByExecution t3 ! length (samples t0) = Some []"
proof -
  have len: "length (childRequestsByExecution t0) = length (samples t0)"
    using assms(1) by (simp add: executionsBounded_def)
  then have "js_nth (childRequestsByExecution t0) (int (length (samples t0))) = None"
    by (simp add: js_nth_def)
  then have c: "childRequestsByExecution t3 = childRequestsByExecution t0 @ [Some []]"
    using assms(3) len by (simp add: js_assign_def)
  have "\<exists>children. childRequestsByExecution t3 ! i = Some children
              \<and> int (length children) \<le> expectedCountOf (responseMessage (samples t3 ! i))"
    if "i < length (samples t3)" for i
  proof (cases "i < length (samples t0)")
    case True
    then show ?thesis using assms(1) len
      by (simp add: executionsBounded_def c assms(2) nth_append)
  next
    case False
    then have "i = length (samples t0)" using that assms(2) by simp
    then show ?thesis using len expectedCountOf_nonneg
      by (simp add: c assms(2) nth_append)
  qed
  then show ?thesis using len by (simp add: executionsBounded_def c assms(2) nth_append)
qed

lemma groupController_captureInvariant:
  assumes "captureInvariant st" and "groupController st s = Inr st'"
  shows "captureInvariant st'"
proof -
  obtain t0 t3 where r:
      "t0 = (case transactions st (label s) of None \<Rightarrow> newTransaction (label s) | Some t \<Rightarrow> t)"
      "transactions st' = (transactions st)(label s \<mapsto> t3)"
      "samples t3 = samples t0 @ [s]"
      "childRequestsByExecution t3
        = (case js_nth (childRequestsByExecution t0) (int (length (samples t0))) of
             Some (Some c) \<Rightarrow> childRequestsByExecution t0
           | _ \<Rightarrow> js_assign (childRequestsByExecution t0) (length (samples t0)) [])"
      "currentTransaction st' = Some (label s)"
      "currentTransactionExecutionIndex st' = int (length (samples t0))"
      "expectedChildRequestCount st' = expectedCountOf (responseMessage s)"
      "collectedChildRequestCount st' = 0"
    using groupController_result [OF assms(2)] by blast
  have b0: "executionsBounded t0"
    using assms(1) r(1) executionsBounded_newTransaction
    by (auto simp: captureInvariant_def split: option.splits)
  note b3 = executionsBounded_controller [OF b0 r(3) r(4)]
  have all: "\<forall>k t. transactions st' k = Some t \<longrightarrow> executionsBounded t"
    using assms(1) b3 by (auto simp: captureInvariant_def r(2))
  have cur: "\<exists>t children. transactions st' (label s) = Some t
               \<and> 0 \<le> currentTransactionExecutionIndex st'
               \<and> nat (currentTransactionExecutionIndex st') < length (samples t)
               \<and> childRequestsByExecution t ! nat (currentTransactionExecutionIndex st') = Some children
               \<and> collectedChildRequestCount st' = int (length children)
               \<and> expectedChildRequestCount st'
                    = expectedCountOf (responseMessage (samples t ! nat (currentTransactionExecutionIndex st')))"
    using b3 by (intro exI [of _ t3] exI [of _ "[]"]) (simp add: r)
  show ?thesis using all cur by (simp add: captureInvariant_def r(5))
qed

lemma executionsBounded_child:
  assumes "executionsBounded t" and "j < length (samples t)"
    and "childRequestsByExecution t ! j = Some children"
    and "int (length children) < expectedCountOf (responseMessage (samples t ! j))"
    and "samples t' = samples t"
    and "childRequestsByExecution t' = (childRequestsByExecution t)[j := Some (children @ [s])]"
  shows "executionsBounded t'"
proof -
  have len: "length (childRequestsByExecution t) = length (samples t)"
    using assms(1) by (simp add: executionsBounded_def)
  have "\<exists>c. childRequestsByExecution t' ! i = Some c
              \<and> int (length c) \<le> expectedCountOf (responseMessage (samples t' ! i))"
    if "i < length (samples t')" for i
  proof (cases "i = j")
    case True
    then show ?thesis using assms(2,4) len by (simp add: assms(5,6))
  next
    case False
    then show ?thesis using assms(1) that by (simp add: executionsBounded_def assms(5,6))
  qed
  then show ?thesis using len by (simp add: executionsBounded_def assms(5,6))
qed

lemma collectChild_captureInvariant:
  assumes "captureInvariant st" and "collectChild st s = Inr st'"
    and "currentTransaction st \<noteq> None"
  shows "captureInvariant st'"
proof (cases "collectedChildRequestCount st < expectedChildRequestCount st")
  case False
  then have "transactions st' = transactions st \<and> currentTransaction st' = None"
    using collectChild_exhausted [OF assms(2)] by simp
  then show ?thesis using captureInvariant_closed [OF assms(1)] by blast
next
  case True
  obtain n where n: "currentTransaction st = Some n" using assms(3) by blast
  obtain t children where inv:
      "transactions st n = Some t" "0 \<le> currentTransactionExecutionIndex st"
      "nat (currentTransactionExecutionIndex st) < length (samples t)"
      "childRequestsByExecution t ! nat (currentTransactionExecutionIndex st) = Some children"
      "collectedChildRequestCount st = int (length children)"
      "expectedChildRequestCount st
         = expectedCountOf (responseMessage (samples t ! nat (currentTransactionExecutionIndex st)))"
    using assms(1) n unfolding captureInvariant_def by blast
  have bt: "executionsBounded t" using assms(1) inv(1) unfolding captureInvariant_def by blast
  then have len: "length (childRequestsByExecution t) = length (samples t)"
    by (simp add: executionsBounded_def)
  have nth: "js_nth (childRequestsByExecution t) (currentTransactionExecutionIndex st) = Some (Some children)"
    using inv(2,3,4) len by (simp add: js_nth_def nat_less_iff)
  from collectChild_open [OF assms(2) True]
  consider (cap) t1 c1 where
      "transactions st (keyOf (currentTransaction st)) = Some t1"
      "js_nth (childRequestsByExecution t1) (currentTransactionExecutionIndex st) = Some (Some c1)"
      "transactions st' = (transactions st)(keyOf (currentTransaction st) \<mapsto>
                    t1\<lparr>childRequests := childRequests t1 @ [s],
                      childRequestsByExecution :=
                        (childRequestsByExecution t1)
                          [nat (currentTransactionExecutionIndex st) := Some (c1 @ [s])]\<rparr>)"
      "currentTransaction st' = currentTransaction st"
      "currentTransactionExecutionIndex st' = currentTransactionExecutionIndex st"
      "expectedChildRequestCount st' = expectedChildRequestCount st"
      "collectedChildRequestCount st' = collectedChildRequestCount st + 1"
    | (reset) "st' = resetCurrent st"
    | (same) "st' = st"
    by blast
  then show ?thesis
  proof cases
    case cap
    have t1: "t1 = t" "c1 = children" using cap(1,2) inv(1) nth n by (simp_all add: keyOf_def)
    define t' where "t' = t\<lparr>childRequests := childRequests t @ [s],
                      childRequestsByExecution :=
                        (childRequestsByExecution t)
                          [nat (currentTransactionExecutionIndex st) := Some (children @ [s])]\<rparr>"
    have tr: "transactions st' = (transactions st)(n \<mapsto> t')"
      using cap(3) t1 n by (simp add: t'_def keyOf_def)
    have f: "samples t' = samples t"
        "childRequestsByExecution t' = (childRequestsByExecution t)
            [nat (currentTransactionExecutionIndex st) := Some (children @ [s])]"
      by (simp_all add: t'_def)
    have lt: "int (length children)
        < expectedCountOf (responseMessage (samples t ! nat (currentTransactionExecutionIndex st)))"
      using True inv(5,6) by simp
    have bt': "executionsBounded t'"
      using executionsBounded_child [OF bt inv(3) inv(4) lt f] .
    have all: "\<forall>k u. transactions st' k = Some u \<longrightarrow> executionsBounded u"
      using assms(1) bt' by (auto simp: captureInvariant_def tr)
    have cur: "\<exists>u c. transactions st' n = Some u
               \<and> 0 \<le> currentTransactionExecutionIndex st'
               \<and> nat (currentTransactionExecutionIndex st') < length (samples u)
               \<and> childRequestsByExecution u ! nat (currentTransactionExecutionIndex st') = Some c
               \<and> collectedChildRequestCount st' = int (length c)
               \<and> expectedChildRequestCount st'
                    = expectedCountOf (responseMessage (samples u ! nat (currentTransactionExecutionIndex st')))"
      using inv len
      by (intro exI [of _ t'] exI [of _ "children @ [s]"]) (simp add: tr cap f)
    show ?thesis using all cur by (simp add: captureInvariant_def cap(4) n)
  next
    case reset
    then show ?thesis using captureInvariant_closed [OF assms(1), of st'] by simp
  next
    case same
    then show ?thesis using assms(1) by simp
  qed
qed

lemma processSample_captureInvariant:
  assumes "captureInvariant st0" and "processSample st0 s = Inr st'"
  shows "captureInvariant st'"
proof -
  define st where "st = trackErrors (trackTimestamps (st0\<lparr>allSamples := allSamples st0 @ [s]\<rparr>) s) s"
  note f = preState_fields [OF st_def]
  have inv: "captureInvariant st"
    using assms(1) captureInvariant_fields [OF f(1-5)] by simp
  from processSample_cases [OF assms(2) st_def]
  consider "groupController st s = Inr st'"
    | "currentTransaction st \<noteq> None" "collectChild st s = Inr st'"
    | "st' = st"
    by blast
  then show ?thesis
  proof cases
    case 1
    then show ?thesis using groupController_captureInvariant [OF inv] by blast
  next
    case 2
    then show ?thesis using collectChild_captureInvariant [OF inv] by blast
  next
    case 3
    then show ?thesis using inv by simp
  qed
qed

lemma processLines_captureInvariant:
  "processLines h st ls = Inr st' \<Longrightarrow> captureInvariant st \<Longrightarrow> captureInvariant st'"
proof (induction ls arbitrary: st)
  case Nil
  then show ?case by simp
next
  case (Cons l ls)
  from Cons.prems(1) obtain st1 where st1: "processLine h st l = Inr st1" "processLines h st1 ls = Inr st'"
    by (auto split: sum.splits)
  have "captureInvariant st1"
    using processLine_cases [OF st1(1)] processSample_captureInvariant Cons.prems(2) by blast
  then show ?case using Cons.IH [OF st1(2)] by simp
qed

lemma scanCSV_captureInvariant:
  assumes "scanCSV csv = Inr (Some st)"
  shows "captureInvariant st"
proof -
  obtain header rows where
    "processLines (headerIndices (parseCSVLine header)) initialState rows = Inr st"
    using scanCSV_processLines [OF assms] by blast
  moreover have "captureInvariant initialState"
    by (simp add: captureInvariant_def initialState_def)
  ultimately show ?thesis using processLines_captureInvariant by blast
qed

lemma finalizeTransaction_fields [simp]:
  "name (finalizeTransaction t) = name t"
  "samples (finalizeTransaction t) = samples t"
  "childRequests (finalizeTransaction t) = childRequests t"
  "childRequestsByExecution (finalizeTransaction t) = childRequestsByExecution t"
  "stats (finalizeTransaction t) = calculateStatistics (map elapsed (samples t))"
  by (simp_all add: finalizeTransaction_def transaction.defs)

lemma finalizeResult_transactions:
  "resultTransactions (finalizeResult st) k = Some g \<longleftrightarrow>
     (\<exists>t. transactions st k = Some t \<and> g = finalizeTransaction t)"
  by (auto simp: finalizeResult_def Let_def)

lemma executionsBounded_finalize: "executionsBounded (finalizeTransaction t) = executionsBounded t"
  by (simp add: executionsBounded_def)

text \<open>
  Claim C1. In the object that \<^verbatim>\<open>parseJMeterResults\<close> returns, every execution of every
  transaction has a list of children, and that list is no longer than the count parsed from
  the message of the execution's controller row. In one step of the scan on a row that is no
  controller row: while the count is not reached, the current transaction, its execution
  index and the expected count stay as they are; once the collected count has reached the
  expected one, \<^verbatim>\<open>transactions\<close> is left unchanged (the row is not captured) and an open
  window is closed. A controller row makes its own label current, with a new execution and
  a collected count of zero.
\<close>

theorem child_capture_bounded:
  "(parseJMeterResults csv = Some r \<and> resultTransactions r k = Some g \<and> i < length (samples g) \<longrightarrow>
      length (childRequestsByExecution g) = length (samples g)
    \<and> (\<exists>children. childRequestsByExecution g ! i = Some children
          \<and> int (length children) \<le> expectedCountOf (responseMessage (samples g ! i))))
   \<and> (processSample sa a = Inr sa'
        \<and> \<not> (dataType a = [] \<and> includes_str (responseMessage a) transactionMarker)
        \<and> currentTransaction sa \<noteq> None \<and> currentTransaction sa \<noteq> Some []
        \<and> 0 \<le> currentTransactionExecutionIndex sa
        \<and> collectedChildRequestCount sa < expectedChildRequestCount sa \<longrightarrow>
      currentTransaction sa' = currentTransaction sa
    \<and> currentTransactionExecutionIndex sa' = currentTransactionExecutionIndex sa
    \<and> expectedChildRequestCount sa' = expectedChildRequestCount sa)
   \<and> (processSample sb b = Inr sb'
        \<and> \<not> (dataType b = [] \<and> includes_str (responseMessage b) transactionMarker)
        \<and> expectedChildRequestCount sb \<le> collectedChildRequestCount sb \<longrightarrow>
      transactions sb' = transactions sb
    \<and> (currentTransaction sb \<noteq> None \<and> currentTransaction sb \<noteq> Some []
        \<and> 0 \<le> currentTransactionExecutionIndex sb \<longrightarrow> currentTransaction sb' = None))
   \<and> (processSample sc c = Inr sc'
        \<and> dataType c = [] \<and> includes_str (responseMessage c) transactionMarker \<longrightarrow>
      currentTransaction sc' = Some (label c)
    \<and> collectedChildRequestCount sc' = 0
    \<and> expectedChildRequestCount sc' = expectedCountOf (responseMessage c)
    \<and> (\<exists>t. transactions sc' (label c) = Some t \<and> samples t \<noteq> [] \<and> last (samples t) = c
          \<and> currentTransactionExecutionIndex sc' = int (length (samples t)) - 1))"
proof (intro conjI impI)
  assume a: "parseJMeterResults csv = Some r \<and> resultTransactions r k = Some g \<and> i < length (samples g)"
  then obtain st where st: "scanCSV csv = Inr (Some st)" "r = finalizeResult st"
    using parseJMeterResults_scan by blast
  then obtain t where t: "transactions st k = Some t" "g = finalizeTransaction t"
    using a finalizeResult_transactions by blast
  have "executionsBounded t"
    using scanCSV_captureInvariant [OF st(1)] t(1) unfolding captureInvariant_def by blast
  then have b: "executionsBounded g" using t(2) executionsBounded_finalize by simp
  show "length (childRequestsByExecution g) = length (samples g)"
    using b by (simp add: executionsBounded_def)
  show "\<exists>children. childRequestsByExecution g ! i = Some children
          \<and> int (length children) \<le> expectedCountOf (responseMessage (samples g ! i))"
    using b a unfolding executionsBounded_def by blast
next
  assume a: "processSample sa a = Inr sa'
        \<and> \<not> (dataType a = [] \<and> includes_str (responseMessage a) transactionMarker)
        \<and> currentTransaction sa \<noteq> None \<and> currentTransaction sa \<noteq> Some []
        \<and> 0 \<le> currentTransactionExecutionIndex sa
        \<and> collectedChildRequestCount sa < expectedChildRequestCount sa"
  define st where "st = trackErrors (trackTimestamps (sa\<lparr>allSamples := allSamples sa @ [a]\<rparr>) a) a"
  note f = preState_fields [OF st_def]
  have p: "processSample sa a = Inr sa'" using a by blast
  have "collectChild st a = Inr sa'"
    using processSample_cases [OF p st_def] a f by auto
  moreover have "collectedChildRequestCount st < expectedChildRequestCount st"
    using a f by simp
  ultimately have "(currentTransaction sa' = currentTransaction st
          \<and> currentTransactionExecutionIndex sa' = currentTransactionExecutionIndex st
          \<and> expectedChildRequestCount sa' = expectedChildRequestCount st)
        \<or> sa' = st"
    using collectChild_open [of st a sa'] a by blast
  then show "currentTransaction sa' = currentTransaction sa"
    "currentTransactionExecutionIndex sa' = currentTransactionExecutionIndex sa"
    "expectedChildRequestCount sa' = expectedChildRequestCount sa"
    using f by auto
next
  assume a: "processSample sb b = Inr sb'
        \<and> \<not> (dataType b = [] \<and> includes_str (responseMessage b) transactionMarker)
        \<and> expectedChildRequestCount sb \<le> collectedChildRequestCount sb"
  define st where "st = trackErrors (trackTimestamps (sb\<lparr>allSamples := allSamples sb @ [b]\<rparr>) b) b"
  note f = preState_fields [OF st_def]
  have p: "processSample sb b = Inr sb'" using a by blast
  have q: "expectedChildRequestCount st \<le> collectedChildRequestCount st" using a f by simp
  from processSample_cases [OF p st_def] a
  consider "(currentTransaction st \<noteq> None \<and> currentTransaction st \<noteq> Some [])
            \<and> currentTransactionExecutionIndex st \<ge> 0" "collectChild st b = Inr sb'"
    | "\<not> ((currentTransaction st \<noteq> None \<and> currentTransaction st \<noteq> Some [])
                    \<and> currentTransactionExecutionIndex st \<ge> 0)" "sb' = st"
    by blast
  then have "transactions sb' = transactions st
    \<and> (currentTransaction st \<noteq> None \<and> currentTransaction st \<noteq> Some []
        \<and> 0 \<le> currentTransactionExecutionIndex st \<longrightarrow> currentTransaction sb' = None)"
  proof cases
    case 1
    then show ?thesis using collectChild_exhausted [OF 1(2) q] by simp
  next
    case 2
    then show ?thesis by blast
  qed
  then show "transactions sb' = transactions sb"
    "currentTransaction sb \<noteq> None \<and> currentTransaction sb \<noteq> Some []
        \<and> 0 \<le> currentTransactionExecutionIndex sb \<Longrightarrow> currentTransaction sb' = None"
    using f by auto
next
  assume a: "processSample sc c = Inr sc'
        \<and> dataType c = [] \<and> includes_str (responseMessage c) transactionMarker"
  define st where "st = trackErrors (trackTimestamps (sc\<lparr>allSamples := allSamples sc @ [c]\<rparr>) c) c"
  have p: "processSample sc c = Inr sc'" using a by blast
  have g: "groupController st c = Inr sc'"
    using processSample_cases [OF p st_def] a by blast
  obtain t0 :: transaction and t3 :: transaction where r:
      "transactions sc' = (transactions st)(label c \<mapsto> t3)"
      "samples t3 = samples t0 @ [c]"
      "currentTransaction sc' = Some (label c)"
      "currentTransactionExecutionIndex sc' = int (length (samples t0))"
      "expectedChildRequestCount sc' = expectedCountOf (responseMessage c)"
      "collectedChildRequestCount sc' = 0"
    using groupController_result [OF g] by blast
  show "currentTransaction sc' = Some (label c)" by (rule r(3))
  show "collectedChildRequestCount sc' = 0" by (rule r(6))
  show "expectedChildRequestCount sc' = expectedCountOf (responseMessage c)" by (rule r(5))
  show "\<exists>t. transactions sc' (label c) = Some t \<and> samples t \<noteq> [] \<and> last (samples t) = c
          \<and> currentTransactionExecutionIndex sc' = int (length (samples t)) - 1"
    by (intro exI [of _ t3]) (simp add: r)
qed

theorem child_capture_bounded_witness:
  "(\<exists>r g. parseJMeterResults loginCSV = Some r \<and> resultTransactions r ''Login'' = Some g
        \<and> 0 < length (samples g)
        \<and> (\<exists>children. childRequestsByExecution g ! 0 = Some children
              \<and> int (length children) \<le> expectedCountOf (responseMessage (samples g ! 0))))
   \<and> (\<exists>sa sa'. processSample initialState controllerOfTwo = Inr sa
        \<and> processSample sa requestRow = Inr sa'
        \<and> \<not> (dataType requestRow = [] \<and> includes_str (responseMessage requestRow) transactionMarker)
        \<and> currentTransaction sa = Some ''Checkout''
        \<and> 0 \<le> currentTransactionExecutionIndex sa
        \<and> collectedChildRequestCount sa < expectedChildRequestCount sa
        \<and> currentTransaction sa' = Some ''Checkout''
        \<and> expectedChildRequestCount sa' = 2
        \<and> dataType controllerOfTwo = []
        \<and> includes_str (responseMessage controllerOfTwo) transactionMarker
        \<and> (\<exists>t. transactions sa (label controllerOfTwo) = Some t
              \<and> last (samples t) = controllerOfTwo))
   \<and> (\<exists>sb sb'. processSample initialState controllerOfNone = Inr sb
        \<and> processSample sb requestRow = Inr sb'
        \<and> expectedChildRequestCount sb \<le> collectedChildRequestCount sb
        \<and> currentTransaction sb = Some ''Idle''
        \<and> transactions sb' = transactions sb \<and> currentTransaction sb' = None)"
proof -
  have "case scanCSV loginCSV of
          Inr (Some st) \<Rightarrow>
            (case transactions st ''Login'' of Some t \<Rightarrow> length (samples t) = 1 | None \<Rightarrow> False)
        | _ \<Rightarrow> False"
    by code_simp
  then obtain st t where st: "scanCSV loginCSV = Inr (Some st)"
      "transactions st ''Login'' = Some t" "length (samples t) = 1"
    by (auto split: sum.splits option.splits)
  define r where "r = finalizeResult st"
  define g where "g = finalizeTransaction t"
  have h1: "parseJMeterResults loginCSV = Some r" "resultTransactions r ''Login'' = Some g"
      "0 < length (samples g)"
    using st by (simp_all add: r_def g_def scanCSV_parseJMeterResults finalizeResult_transactions)
  have "case processSample initialState controllerOfTwo of
          Inr sa \<Rightarrow> currentTransaction sa = Some ''Checkout''
                  \<and> currentTransactionExecutionIndex sa = 0
                  \<and> expectedChildRequestCount sa = 2 \<and> collectedChildRequestCount sa = 0
                  \<and> (case processSample sa requestRow of Inr _ \<Rightarrow> True | Inl _ \<Rightarrow> False)
        | Inl _ \<Rightarrow> False"
    by code_simp
  then obtain sa sa' where sa: "processSample initialState controllerOfTwo = Inr sa"
      "currentTransaction sa = Some ''Checkout''" "currentTransactionExecutionIndex sa = 0"
      "expectedChildRequestCount sa = 2" "collectedChildRequestCount sa = 0"
      "processSample sa requestRow = Inr sa'"
    by (auto split: sum.splits)
  have "case processSample initialState controllerOfNone of
          Inr sb \<Rightarrow> currentTransaction sb = Some ''Idle''
                  \<and> currentTransactionExecutionIndex sb = 0
                  \<and> expectedChildRequestCount sb = 0 \<and> collectedChildRequestCount sb = 0
                  \<and> (case processSample sb requestRow of Inr _ \<Rightarrow> True | Inl _ \<Rightarrow> False)
        | Inl _ \<Rightarrow> False"
    by code_simp
  then obtain sb sb' where sb: "processSample initialState controllerOfNone = Inr sb"
      "currentTransaction sb = Some ''Idle''" "currentTransactionExecutionIndex sb = 0"
      "expectedChildRequestCount sb = 0" "collectedChildRequestCount sb = 0"
      "processSample sb requestRow = Inr sb'"
    by (auto split: sum.splits)
  have nc: "\<not> (dataType requestRow = [] \<and> includes_str (responseMessage requestRow) transactionMarker)"
    by (simp add: requestRow_def)
  have c: "dataType controllerOfTwo = []"
      "includes_str (responseMessage controllerOfTwo) transactionMarker"
    by (simp_all add: controllerOfTwo_def transactionMarker_def)
  note inst = child_capture_bounded [where csv = loginCSV and r = r and k = "''Login''" and g = g
      and i = 0 and sa = sa and a = requestRow and sa' = sa' and sb = sb and b = requestRow
      and sb' = sb' and sc = initialState and c = controllerOfTwo and sc' = sa]
  have p1: "\<exists>children. childRequestsByExecution g ! 0 = Some children
              \<and> int (length children) \<le> expectedCountOf (responseMessage (samples g ! 0))"
    using inst h1 by blast
  have p2: "currentTransaction sa' = Some ''Checkout''" "expectedChildRequestCount sa' = 2"
    using inst sa nc by simp_all
  have p3: "transactions sb' = transactions sb" "currentTransaction sb' = None"
    using inst sb nc by simp_all
  have p4: "\<exists>t. transactions sa (label controllerOfTwo) = Some t
              \<and> last (samples t) = controllerOfTwo"
    using inst sa(1) c by blast
  show ?thesis
    using h1 p1 sa p2 sb p3 nc c p4 by auto
qed

subsection \<open>The transaction groups are the labels of the controller rows\<close>

lemma groupController_controllerSamples:
  assumes "groupController st s = Inr st'"
  shows "controllerSamples st' = controllerSamples st @ [s]"
  using assms by (auto simp: groupController_def Let_def split: if_splits)

lemma collectChild_controllerSamples:
  assumes "collectChild st s = Inr st'"
  shows "controllerSamples st' = controllerSamples st"
  using assms
  by (auto simp: collectChild_def Let_def resetCurrent_def split: if_splits option.splits)

lemma collectChild_dom:
  assumes "collectChild st s = Inr st'"
  shows "dom (transactions st') = dom (transactions st)"
proof (cases "collectedChildRequestCount st < expectedChildRequestCount st")
  case True
  from collectChild_open [OF assms True]
  consider (cap) t t' where "transactions st (keyOf (currentTransaction st)) = Some t"
      "transactions st' = (transactions st)(keyOf (currentTransaction st) \<mapsto> t')"
    | (reset) "st' = resetCurrent st"
    | (same) "st' = st"
    by blast
  then show ?thesis
  proof cases
    case cap
    have "keyOf (currentTransaction st) \<in> dom (transactions st)" using cap(1) by blast
    then show ?thesis by (simp add: cap(2) insert_absorb)
  next
    case reset
    then show ?thesis by simp
  next
    case same
    then show ?thesis by simp
  qed
next
  case False
  then show ?thesis using collectChild_exhausted [OF assms] by simp
qed

lemma processSample_groups:
  assumes "processSample st0 s = Inr st'"
    and "dom (transactions st0) = label ` set (controllerSamples st0)"
  shows "dom (transactions st') = label ` set (controllerSamples st')"
proof -
  define st where "st = trackErrors (trackTimestamps (st0\<lparr>allSamples := allSamples st0 @ [s]\<rparr>) s) s"
  have c: "controllerSamples st = controllerSamples st0"
    by (simp add: st_def trackErrors_def trackTimestamps_def)
  have d: "dom (transactions st) = label ` set (controllerSamples st)"
    using assms(2) c preState_fields(1) [OF st_def] by simp
  from processSample_cases [OF assms(1) st_def]
  consider "groupController st s = Inr st'" | "collectChild st s = Inr st'" | "st' = st"
    by blast
  then show ?thesis
  proof cases
    case 1
    obtain t3 :: transaction where "transactions st' = (transactions st)(label s \<mapsto> t3)"
      using groupController_result [OF 1] by blast
    then show ?thesis using groupController_controllerSamples [OF 1] d by simp
  next
    case 2
    then show ?thesis
      using collectChild_dom [OF 2] collectChild_controllerSamples [OF 2] d by simp
  next
    case 3
    then show ?thesis using d by simp
  qed
qed

lemma processLines_groups:
  "processLines h st ls = Inr st' \<Longrightarrow> dom (transactions st) = label ` set (controllerSamples st)
   \<Longrightarrow> dom (transactions st') = label ` set (controllerSamples st')"
proof (induction ls arbitrary: st)
  case Nil
  then show ?case by simp
next
  case (Cons l ls)
  from Cons.prems(1) obtain st1 where st1: "processLine h st l = Inr st1" "processLines h st1 ls = Inr st'"
    by (auto split: sum.splits)
  have "dom (transactions st1) = label ` set (controllerSamples st1)"
  proof (rule disjE [OF processLine_cases [OF st1(1)]])
    assume "st1 = st"
    then show ?thesis using Cons.prems(2) by simp
  next
    assume "processSample st (makeSample h (parseCSVLine l)) = Inr st1"
    then show ?thesis using Cons.prems(2) by (rule processSample_groups)
  qed
  then show ?case by (rule Cons.IH [OF st1(2)])
qed

lemma scanCSV_groups:
  assumes "scanCSV csv = Inr (Some st)"
  shows "dom (transactions st) = label ` set (controllerSamples st)"
proof -
  obtain header rows where
    p: "processLines (headerIndices (parseCSVLine header)) initialState rows = Inr st"
    using scanCSV_processLines [OF assms] by blast
  have "dom (transactions initialState) = label ` set (controllerSamples initialState)"
    by (simp add: initialState_def)
  then show ?thesis by (rule processLines_groups [OF p])
qed

lemma finalizeResult_dom: "dom (resultTransactions (finalizeResult st)) = dom (transactions st)"
proof -
  have "resultTransactions (finalizeResult st) = map_option finalizeTransaction \<circ> transactions st"
    by (simp add: finalizeResult_def Let_def comp_def)
  then show ?thesis by (simp only: dom_map_option_comp)
qed


section \<open>The login scenario\<close>

subsection \<open>The scan makes progress\<close>

lemma groupController_fresh:
  assumes "label s \<notin> set objectPrototypeKeys" and "transactions st (label s) = None"
  shows "\<exists>st'. groupController st s = Inr st'
      \<and> transactions st' = (transactions st)(label s \<mapsto>
            \<lparr>name = label s, samples = [s], totalSamples = 1,
             successCount = (if success s then 1 else 0),
             errorCount = (if success s then 0 else 1),
             childRequests = [], childRequestsByExecution = [Some []]\<rparr>)
      \<and> controllerSamples st' = controllerSamples st @ [s]
      \<and> currentTransaction st' = Some (label s)
      \<and> currentTransactionExecutionIndex st' = 0
      \<and> expectedChildRequestCount st' = expectedCountOf (responseMessage s)
      \<and> collectedChildRequestCount st' = 0"
  using assms
  by (simp add: groupController_def Let_def newTransaction_def js_nth_def js_assign_def)

lemma collectChild_captures:
  assumes "currentTransaction st = Some n" and "transactions st n = Some t"
    and "js_nth (childRequestsByExecution t) (currentTransactionExecutionIndex st) = Some (Some children)"
    and "collectedChildRequestCount st < expectedChildRequestCount st"
    and "dataType s \<noteq> []"
  shows "\<exists>st'. collectChild st s = Inr st'
      \<and> transactions st' = (transactions st)(n \<mapsto>
            t\<lparr>childRequests := childRequests t @ [s],
              childRequestsByExecution :=
                (childRequestsByExecution t)
                  [nat (currentTransactionExecutionIndex st) := Some (children @ [s])]\<rparr>)
      \<and> controllerSamples st' = controllerSamples st"
  using assms by (simp add: collectChild_def Let_def keyOf_def)

lemma processSample_controller:
  assumes "dataType s = []" and "includes_str (responseMessage s) transactionMarker"
  shows "processSample st0 s
       = groupController (trackErrors (trackTimestamps (st0\<lparr>allSamples := allSamples st0 @ [s]\<rparr>) s) s) s"
  using assms by (simp add: processSample_def Let_def)

lemma processSample_child:
  assumes "dataType s \<noteq> []" and "currentTransaction st0 = Some n" and "n \<noteq> []"
    and "0 \<le> currentTransactionExecutionIndex st0"
  shows "processSample st0 s
       = collectChild (trackErrors (trackTimestamps (st0\<lparr>allSamples := allSamples st0 @ [s]\<rparr>) s) s) s"
  using assms by (simp add: processSample_def Let_def)

text \<open>A controller row of a new transaction that announces at least one child, followed by
  a request row: one group, one execution, one child.\<close>

lemma controller_then_child:
  assumes c: "dataType c = []" "includes_str (responseMessage c) transactionMarker"
      "label c \<notin> set objectPrototypeKeys" "label c \<noteq> []"
      "0 < expectedCountOf (responseMessage c)"
    and ch: "dataType ch \<noteq> []"
  shows "\<exists>st1 st2. processSample initialState c = Inr st1 \<and> processSample st1 ch = Inr st2
      \<and> controllerSamples st2 = [c]
      \<and> transactions st2 = [label c \<mapsto>
            \<lparr>name = label c, samples = [c], totalSamples = 1,
             successCount = (if success c then 1 else 0),
             errorCount = (if success c then 0 else 1),
             childRequests = [ch], childRequestsByExecution = [Some [ch]]\<rparr>]"
proof -
  define p0 where "p0 = trackErrors (trackTimestamps (initialState\<lparr>allSamples := allSamples initialState @ [c]\<rparr>) c) c"
  note f0 = preState_fields [OF p0_def]
  have t0: "transactions p0 (label c) = None" "controllerSamples p0 = []"
    by (simp_all add: f0 initialState_def p0_def trackErrors_def trackTimestamps_def)
  obtain st1 where st1: "groupController p0 c = Inr st1"
      "transactions st1 = (transactions p0)(label c \<mapsto>
            \<lparr>name = label c, samples = [c], totalSamples = 1,
             successCount = (if success c then 1 else 0),
             errorCount = (if success c then 0 else 1),
             childRequests = [], childRequestsByExecution = [Some []]\<rparr>)"
      "controllerSamples st1 = controllerSamples p0 @ [c]"
      "currentTransaction st1 = Some (label c)"
      "currentTransactionExecutionIndex st1 = 0"
      "expectedChildRequestCount st1 = expectedCountOf (responseMessage c)"
      "collectedChildRequestCount st1 = 0"
    using groupController_fresh [OF c(3) t0(1)] by blast
  have s1: "processSample initialState c = Inr st1"
    using processSample_controller [OF c(1,2), of initialState] st1(1) by (simp add: p0_def)
  define p1 where "p1 = trackErrors (trackTimestamps (st1\<lparr>allSamples := allSamples st1 @ [ch]\<rparr>) ch) ch"
  note f1 = preState_fields [OF p1_def]
  have c1: "controllerSamples p1 = controllerSamples st1"
    by (simp add: p1_def trackErrors_def trackTimestamps_def)
  let ?t = "\<lparr>name = label c, samples = [c], totalSamples = 1,
             successCount = (if success c then 1 else 0),
             errorCount = (if success c then 0 else 1),
             childRequests = [], childRequestsByExecution = [Some []]\<rparr>"
  have tr0: "transactions p0 = Map.empty" by (simp add: f0 initialState_def)
  have a1: "currentTransaction p1 = Some (label c)" by (simp add: f1 st1)
  have a2: "transactions p1 (label c) = Some ?t" by (simp add: f1 st1)
  have a3: "js_nth (childRequestsByExecution ?t) (currentTransactionExecutionIndex p1) = Some (Some [])"
    by (simp add: f1 st1 js_nth_def)
  have a4: "collectedChildRequestCount p1 < expectedChildRequestCount p1"
    using c(5) by (simp add: f1 st1)
  obtain st2 where st2: "collectChild p1 ch = Inr st2"
      "transactions st2 = (transactions p1)(label c \<mapsto>
            ?t\<lparr>childRequests := childRequests ?t @ [ch],
              childRequestsByExecution :=
                (childRequestsByExecution ?t)
                  [nat (currentTransactionExecutionIndex p1) := Some ([] @ [ch])]\<rparr>)"
      "controllerSamples st2 = controllerSamples p1"
    using collectChild_captures [OF a1 a2 a3 a4 ch] by blast
  have s2: "processSample st1 ch = Inr st2"
    using processSample_child [OF ch st1(4) c(4)] st1(5) st2(1) by (simp add: p1_def)
  have r1: "controllerSamples st2 = [c]" by (simp add: st2(3) c1 st1(3) t0(2))
  have r2: "transactions st2 = [label c \<mapsto>
            \<lparr>name = label c, samples = [c], totalSamples = 1,
             successCount = (if success c then 1 else 0),
             errorCount = (if success c then 0 else 1),
             childRequests = [ch], childRequestsByExecution = [Some [ch]]\<rparr>]"
    by (simp add: st2(2) f1 st1 tr0)
  show ?thesis using s1 s2 r1 r2 by blast
qed

subsection \<open>Lines and fields of a written file\<close>

lemma split_lines_loop_last:
  "CHR 0x0A \<notin> set a \<Longrightarrow> split_lines_loop a current = [current @ a]"
  by (induction a arbitrary: current) auto

lemma split_lines_loop_line:
  "CHR 0x0A \<notin> set a \<Longrightarrow>
   split_lines_loop (a @ CHR 0x0A # rest) current = (current @ a) # split_lines_loop rest []"
  by (induction a arbitrary: current) auto

lemma in_set_dropWhile: "x \<in> set xs \<Longrightarrow> \<not> P x \<Longrightarrow> x \<in> set (dropWhile P xs)"
  by (induction xs) auto

lemma trim_not_blank:
  assumes "c \<in> set s" and "\<not> isSpace c"
  shows "trim s \<noteq> []"
proof -
  have "c \<in> set (dropWhile isSpace s)" using assms by (rule in_set_dropWhile)
  then have "c \<in> set (rev (dropWhile isSpace s))" by simp
  then have "c \<in> set (dropWhile isSpace (rev (dropWhile isSpace s)))"
    using assms(2) by (rule in_set_dropWhile)
  then have "dropWhile isSpace (rev (dropWhile isSpace s)) \<noteq> []" by (metis empty_iff empty_set)
  then show ?thesis unfolding trim_def by (simp only: rev_is_Nil_conv not_False_eq_True)
qed

lemma writesField_plain: "dquote \<notin> set f \<Longrightarrow> comma \<notin> set f \<Longrightarrow> writesField f f"
  by (simp add: writesField_def)

lemma parseCSVLine_plain_fields:
  assumes "fs \<noteq> []" and "\<forall>f \<in> set fs. dquote \<notin> set f \<and> comma \<notin> set f"
  shows "parseCSVLine (joinComma fs) = fs"
proof -
  have "list_all2 writesField fs fs"
    using assms(2) by (simp add: list_all2_same writesField_plain)
  then show ?thesis
    using parseCSVLine_loop_fields [of fs fs "[]"] assms(1) by (simp add: parseCSVLine_def)
qed

lemma login_header_indices:
  "headerIndices (parseCSVLine ''label,elapsed,success,responseCode,responseMessage,dataType,threadName,timeStamp'')
     = \<lparr>labelIndex = 0, elapsedIndex = 1, successIndex = 2, responseCodeIndex = 3,
        responseMessageIndex = 4, dataTypeIndex = 5, latencyIndex = - 1, connectIndex = - 1,
        bytesIndex = - 1, urlIndex = - 1, threadGroupIndex = 6, failureMessageIndex = - 1,
        timestampIndex = 7\<rparr>"
  by (simp add: parseCSVLine_def dquote_def comma_def headerIndices_def)

lemma login_marker:
  "includes_str ''Number of samples in transaction : 1'' transactionMarker"
  "expectedCountOf ''Number of samples in transaction : 1'' = 1"
  "''Login'' \<notin> set objectPrototypeKeys"
  by code_simp+

lemma parseInt_500: "parseInt ''500'' = Some 500" "parseInt ''480'' = Some 480"
  by code_simp+

text \<open>The scan of the files of the login scenario.\<close>

lemma login_scenario_scan:
  assumes "\<forall>f \<in> set [rc1, tn1, ts1, rc2, rm2, ts2].
             dquote \<notin> set f \<and> comma \<notin> set f \<and> CHR 0x0A \<notin> set f"
  shows "\<exists>st c ch. scanCSV (loginScenarioCSV rc1 tn1 ts1 rc2 rm2 ts2) = Inr (Some st)
      \<and> controllerSamples st = [c]
      \<and> transactions st = [''Login'' \<mapsto>
            \<lparr>name = ''Login'', samples = [c], totalSamples = 1,
             successCount = 1, errorCount = 0,
             childRequests = [ch], childRequestsByExecution = [Some [ch]]\<rparr>]
      \<and> label c = ''Login'' \<and> elapsed c = 500 \<and> label ch = ''POST /login''"
proof -
  let ?H = "''label,elapsed,success,responseCode,responseMessage,dataType,threadName,timeStamp''"
  let ?F1 = "[''Login'', ''500'', ''true'', rc1, ''Number of samples in transaction : 1'', [], tn1, ts1]"
  let ?F2 = "[''POST /login'', ''480'', ''true'', rc2, rm2, ''text'', ''Login 1-1'', ts2]"
  let ?h = "headerIndices (parseCSVLine ?H)"
  have plain1: "\<forall>f \<in> set ?F1. dquote \<notin> set f \<and> comma \<notin> set f"
    using assms by (simp add: dquote_def comma_def)
  have plain2: "\<forall>f \<in> set ?F2. dquote \<notin> set f \<and> comma \<notin> set f"
    using assms by (simp add: dquote_def comma_def)
  have lfH: "CHR 0x0A \<notin> set ?H" by simp
  have lf1: "CHR 0x0A \<notin> set (joinComma ?F1)" using assms by (simp add: comma_def)
  have lf2: "CHR 0x0A \<notin> set (joinComma ?F2)" using assms by (simp add: comma_def)
  have split: "split_lines (loginScenarioCSV rc1 tn1 ts1 rc2 rm2 ts2)
      = [?H, joinComma ?F1, joinComma ?F2]"
  proof -
    have "split_lines_loop (?H @ CHR 0x0A # joinComma ?F1 @ CHR 0x0A # joinComma ?F2) []
        = ([] @ ?H) # split_lines_loop (joinComma ?F1 @ CHR 0x0A # joinComma ?F2) []"
      using lfH by (rule split_lines_loop_line)
    also have "split_lines_loop (joinComma ?F1 @ CHR 0x0A # joinComma ?F2) []
        = ([] @ joinComma ?F1) # split_lines_loop (joinComma ?F2) []"
      using lf1 by (rule split_lines_loop_line)
    also have "split_lines_loop (joinComma ?F2) [] = [[] @ joinComma ?F2]"
      using lf2 by (rule split_lines_loop_last)
    finally show ?thesis by (simp add: split_lines_def loginScenarioCSV_def)
  qed
  have nbH: "trim ?H \<noteq> []" by (rule trim_not_blank [of "CHR ''l''"]) (simp_all add: isSpace_def)
  have nb1: "trim (joinComma ?F1) \<noteq> []"
    by (rule trim_not_blank [of "CHR ''L''"]) (simp_all add: isSpace_def)
  have nb2: "trim (joinComma ?F2) \<noteq> []"
    by (rule trim_not_blank [of "CHR ''P''"]) (simp_all add: isSpace_def)
  have lines: "nonBlankLines (loginScenarioCSV rc1 tn1 ts1 rc2 rm2 ts2)
      = [?H, joinComma ?F1, joinComma ?F2]"
    unfolding nonBlankLines_def split using nbH nb1 nb2 by simp
  have v1: "parseCSVLine (joinComma ?F1) = ?F1"
    using plain1 by (intro parseCSVLine_plain_fields) simp_all
  have v2: "parseCSVLine (joinComma ?F2) = ?F2"
    using plain2 by (intro parseCSVLine_plain_fields) simp_all
  define c where "c = makeSample ?h ?F1"
  define ch where "ch = makeSample ?h ?F2"
  have c: "label c = ''Login''" "elapsed c = 500" "success c" "dataType c = []"
      "responseMessage c = ''Number of samples in transaction : 1''"
    by (simp_all add: c_def login_header_indices makeSample_def js_nth_def stringOrEmpty_def
        parseIntOr0_def parseInt_500)
  have ch: "label ch = ''POST /login''" "dataType ch = ''text''"
    by (simp_all add: ch_def login_header_indices makeSample_def js_nth_def stringOrEmpty_def)
  have c1: "dataType c = []" "includes_str (responseMessage c) transactionMarker"
      "label c \<notin> set objectPrototypeKeys" "label c \<noteq> []"
      "0 < expectedCountOf (responseMessage c)"
    using login_marker by (simp_all add: c)
  have ch1: "dataType ch \<noteq> []" by (simp add: ch)
  obtain st1 st2 where steps: "processSample initialState c = Inr st1"
      "processSample st1 ch = Inr st2" "controllerSamples st2 = [c]"
      "transactions st2 = [label c \<mapsto>
            \<lparr>name = label c, samples = [c], totalSamples = 1,
             successCount = (if success c then 1 else 0),
             errorCount = (if success c then 0 else 1),
             childRequests = [ch], childRequestsByExecution = [Some [ch]]\<rparr>]"
    using controller_then_child [OF c1 ch1] by blast
  have e1: "int (length (parseCSVLine (joinComma ?F1))) > max (labelIndex ?h) (elapsedIndex ?h)"
    unfolding v1 by (simp add: login_header_indices)
  have e2: "int (length (parseCSVLine (joinComma ?F2))) > max (labelIndex ?h) (elapsedIndex ?h)"
    unfolding v2 by (simp add: login_header_indices)
  have l1: "processLine ?h initialState (joinComma ?F1) = Inr st1"
    using processLine_enough [OF e1, of initialState] steps(1) by (simp only: v1 c_def)
  have l2: "processLine ?h st1 (joinComma ?F2) = Inr st2"
    using processLine_enough [OF e2, of st1] steps(2) by (simp only: v2 ch_def)
  have "processLines ?h initialState [joinComma ?F1, joinComma ?F2] = Inr st2"
    by (simp only: processLines.simps l1 l2 sum.case)
  then have scan: "scanCSV (loginScenarioCSV rc1 tn1 ts1 rc2 rm2 ts2) = Inr (Some st2)"
    unfolding scanCSV_def lines by (simp add: Let_def login_header_indices)
  show ?thesis
    using scan steps(3,4) c ch by (intro exI [of _ st2] exI [of _ c] exI [of _ ch]) simp
qed

text \<open>
  Claim C2. Take the three-line file of the scenario: the header
  \<open>label,elapsed,success,responseCode,responseMessage,dataType,threadName,timeStamp\<close>, the
  controller row of \<open>Login\<close> (elapsed 500, success true, message
  \<open>Number of samples in transaction : 1\<close>, empty data type) and the child row of
  \<open>POST /login\<close> (elapsed 480, success true, data type \<open>text\<close>, thread \<open>Login 1-1\<close>),
  whatever plain text stands in the columns that the scenario leaves open. Then
  \<^verbatim>\<open>parseJMeterResults\<close> returns an object whose only transaction group is \<open>Login\<close>; the
  group has one execution, that execution has one captured child, labelled \<open>POST /login\<close>,
  and the average of the group's statistics is 500.
\<close>

theorem login_scenario:
  "(\<forall>f \<in> set [rc1, tn1, ts1, rc2, rm2, ts2].
      dquote \<notin> set f \<and> comma \<notin> set f \<and> CHR 0x0A \<notin> set f) \<longrightarrow>
   (\<exists>r g.
      parseJMeterResults (loginScenarioCSV rc1 tn1 ts1 rc2 rm2 ts2) = Some r
    \<and> dom (resultTransactions r) = {''Login''}
    \<and> resultTransactions r ''Login'' = Some g
    \<and> name g = ''Login''
    \<and> map label (samples g) = [''Login'']
    \<and> map elapsed (samples g) = [500]
    \<and> map (map_option (map label)) (childRequestsByExecution g) = [Some [''POST /login'']]
    \<and> map label (childRequests g) = [''POST /login'']
    \<and> avg (stats g) = 500)"
proof
  assume "\<forall>f \<in> set [rc1, tn1, ts1, rc2, rm2, ts2].
      dquote \<notin> set f \<and> comma \<notin> set f \<and> CHR 0x0A \<notin> set f"
  then obtain st c ch where st: "scanCSV (loginScenarioCSV rc1 tn1 ts1 rc2 rm2 ts2) = Inr (Some st)"
      "controllerSamples st = [c]"
      "transactions st = [''Login'' \<mapsto>
            \<lparr>name = ''Login'', samples = [c], totalSamples = 1,
             successCount = 1, errorCount = 0,
             childRequests = [ch], childRequestsByExecution = [Some [ch]]\<rparr>]"
      "label c = ''Login''" "elapsed c = 500" "label ch = ''POST /login''"
    using login_scenario_scan by blast
  define t where "t = \<lparr>name = ''Login'', samples = [c], totalSamples = 1,
             successCount = 1, errorCount = 0,
             childRequests = [ch], childRequestsByExecution = [Some [ch]]\<rparr>"
  define r where "r = finalizeResult st"
  define g where "g = finalizeTransaction t"
  have a: "avg (calculateStatistics [500]) = 500"
    using calculateStatistics_avg [of "[500]"] by simp
  have 1: "parseJMeterResults (loginScenarioCSV rc1 tn1 ts1 rc2 rm2 ts2) = Some r"
    using st(1) by (simp add: r_def scanCSV_parseJMeterResults)
  have 2: "dom (resultTransactions r) = {''Login''}"
    by (simp add: r_def finalizeResult_dom st(3))
  have 3: "resultTransactions r ''Login'' = Some g"
    by (simp add: r_def g_def t_def finalizeResult_transactions st(3))
  have 4: "name g = ''Login''" "map label (samples g) = [''Login'']"
      "map elapsed (samples g) = [500]"
      "map (map_option (map label)) (childRequestsByExecution g) = [Some [''POST /login'']]"
      "map label (childRequests g) = [''POST /login'']"
    using st(4,5,6) by (simp_all add: g_def t_def)
  have 5: "avg (stats g) = 500"
    using a st(5) by (simp add: g_def t_def)
  show "\<exists>r g.
      parseJMeterResults (loginScenarioCSV rc1 tn1 ts1 rc2 rm2 ts2) = Some r
    \<and> dom (resultTransactions r) = {''Login''}
    \<and> resultTransactions r ''Login'' = Some g
    \<and> name g = ''Login''
    \<and> map label (samples g) = [''Login'']
    \<and> map elapsed (samples g) = [500]
    \<and> map (map_option (map label)) (childRequestsByExecution g) = [Some [''POST /login'']]
    \<and> map label (childRequests g) = [''POST /login'']
    \<and> avg (stats g) = 500"
    by (intro exI [of _ r] exI [of _ g] conjI) (fact 1 2 3 4 5)+
qed

theorem login_scenario_witness:
  "dquote \<notin> set ([] :: string) \<and> comma \<notin> set ([] :: string) \<and> CHR 0x0A \<notin> set ([] :: string)
   \<and> loginScenarioCSV [] [] [] [] [] [] = loginCSV
   \<and> (\<exists>r g.
      parseJMeterResults loginCSV = Some r
    \<and> dom (resultTransactions r) = {''Login''}
    \<and> resultTransactions r ''Login'' = Some g
    \<and> name g = ''Login''
    \<and> map label (samples g) = [''Login'']
    \<and> map elapsed (samples g) = [500]
    \<and> map (map_option (map label)) (childRequestsByExecution g) = [Some [''POST /login'']]
    \<and> map label (childRequests g) = [''POST /login'']
    \<and> avg (stats g) = 500)"
proof -
  have h: "\<forall>f \<in> set [[], [], [], [], [], []].
      dquote \<notin> set f \<and> comma \<notin> set f \<and> CHR 0x0A \<notin> set (f :: string)"
    by simp
  have e: "loginScenarioCSV [] [] [] [] [] [] = loginCSV"
    by (simp add: loginScenarioCSV_def loginCSV_def comma_def)
  show ?thesis
    using h e login_scenario [of "[]" "[]" "[]" "[]" "[]" "[]"] by simp
qed


section \<open>Properties of countThreadInstances\<close>

lemma foldl_setAdd_set: "set (foldl setAdd acc xs) = set acc \<union> set xs"
  by (induction xs arbitrary: acc) (auto simp: setAdd_def)

lemma set_newSet: "set (newSet xs) = set xs"
  by (simp add: newSet_def foldl_setAdd_set)

lemma newSet_empty: "newSet xs = [] \<longleftrightarrow> xs = []"
  using set_newSet [of xs] by (metis set_empty)

lemma foldl_groupThread_one:
  "\<forall>n \<in> set xs. groupNameOf n = G \<Longrightarrow>
   foldl groupThread [(G, v)] xs = [(G, foldl setAdd v xs)]"
  by (induction xs arbitrary: v) (simp_all add: groupThread_def)

lemma foldl_groupThread_single:
  assumes "xs \<noteq> []" and "\<forall>n \<in> set xs. groupNameOf n = G"
  shows "length (foldl groupThread [] xs) = 1"
proof -
  obtain x rest where xs: "xs = x # rest" using assms(1) by (cases xs) auto
  have "groupThread [] x = [(G, setAdd [] x)]" using assms(2) xs by (simp add: groupThread_def)
  then have "foldl groupThread [] xs = [(G, foldl setAdd (setAdd [] x) rest)]"
    using foldl_groupThread_one [of rest G "setAdd [] x"] assms(2) xs by simp
  then show ?thesis by simp
qed

lemma set_map_filter_Some: "set (List.map_filter f xs) = {k. \<exists>x \<in> set xs. f x = Some k}"
  by (induction xs) (auto split: option.splits)

lemma foldl_max_Max: "foldl max n ns = Max (set (n # ns))"
proof (induction ns arbitrary: n)
  case Nil
  then show ?case by simp
next
  case (Cons m ns)
  have "Max (set (max n m # ns)) = Max (set (n # m # ns))"
    by (cases "ns = []") (simp_all add: max.assoc)
  then show ?case using Cons [of "max n m"] by simp
qed

text \<open>When the names of the matching samples fall in one group and some name carries a
  number, the count is the greatest number.\<close>

lemma countMatching_single_group:
  assumes "matchingSamples \<noteq> []"
    and "\<forall>n \<in> threadName ` set matchingSamples. groupNameOf n = G"
    and "\<exists>n \<in> threadName ` set matchingSamples. threadNumber n \<noteq> None"
  shows "countMatching rampUpWindowMs executionGapMs matchingSamples
           = Max {k. \<exists>n \<in> threadName ` set matchingSamples. threadNumber n = Some k}"
proof -
  let ?U = "newSet (map threadName matchingSamples)"
  have setU: "set ?U = threadName ` set matchingSamples" by (simp add: set_newSet)
  have ne: "?U \<noteq> []" using assms(1) by (simp add: newSet_empty)
  have "\<forall>n \<in> set ?U. groupNameOf n = G" using assms(2) setU by simp
  then have one: "length (foldl groupThread [] ?U) = 1"
    by (rule foldl_groupThread_single [OF ne])
  have nums: "set (List.map_filter threadNumber ?U)
        = {k. \<exists>n \<in> threadName ` set matchingSamples. threadNumber n = Some k}"
    unfolding set_map_filter_Some setU by blast
  then have "List.map_filter threadNumber ?U \<noteq> []" using assms(3) by fastforce
  then obtain n ns where n: "List.map_filter threadNumber ?U = n # ns"
    by (cases "List.map_filter threadNumber ?U") auto
  have "countMatching rampUpWindowMs executionGapMs matchingSamples = foldl max n ns"
    using assms(1) one n by (simp add: countMatching_def Let_def)
  then show ?thesis using foldl_max_Max [of n ns] nums n by simp
qed

lemma matchingSamplesOf_patterns:
  assumes "threadGroupPatterns userTypeConfig = Some ps"
    and "threadGroupNames = None \<or> threadGroupNames = Some []"
  shows "matchingSamplesOf allSamples' userTypeConfig threadGroupNames
       = filter (\<lambda>s. threadName s \<noteq> [] \<and> list_ex (\<lambda>pattern. includes_str (threadName s) pattern) ps)
                allSamples'"
  using assms by (auto simp: matchingSamplesOf_def Let_def)

lemma foldl_groupThread_keys:
  assumes "xs \<noteq> []" and "\<forall>n \<in> set xs. groupNameOf n = G"
  shows "map fst (foldl groupThread [] xs) = [G]"
proof -
  obtain x rest where xs: "xs = x # rest" using assms(1) by (cases xs) auto
  have "groupThread [] x = [(G, setAdd [] x)]" using assms(2) xs by (simp add: groupThread_def)
  then have "foldl groupThread [] xs = [(G, foldl setAdd (setAdd [] x) rest)]"
    using foldl_groupThread_one [of rest G "setAdd [] x"] assms(2) xs by simp
  then show ?thesis by simp
qed

text \<open>The number of a thread name that ends in a dash and digits is read from those
  digits.\<close>

lemma dash_numbers:
  assumes "\<forall>n \<in> S. dashNumberMatch n \<noteq> None"
  shows "{k. \<exists>n \<in> S. \<exists>ds. dashNumberMatch n = Some ds \<and> parseInt10 ds = Some k}
       = {k. \<exists>n \<in> S. threadNumber n = Some k}"
proof -
  have "(\<exists>ds. dashNumberMatch n = Some ds \<and> parseInt10 ds = Some k) \<longleftrightarrow> threadNumber n = Some k"
    if nS: "n \<in> S" for n k
  proof -
    obtain ds0 where "dashNumberMatch n = Some ds0" using assms nS by auto
    then show ?thesis by (simp add: threadNumber_def)
  qed
  then show ?thesis by blast
qed

text \<open>Matching names that all lie in the group \<open>District Coordinator\<close>, one of them numbered:
  \<^verbatim>\<open>threadsByGroup\<close> has this one key, and the count is the greatest number.\<close>

lemma district_coordinator_group:
  assumes a1: "threadGroupPatterns userTypeConfig = Some [''District Coordinator'']"
    and a2: "threadGroupNames = None \<or> threadGroupNames = Some []"
    and a3: "threadName ` {s \<in> set allSamples'. threadName s \<noteq> []
                        \<and> includes_str (threadName s) ''District Coordinator''} = S"
    and s1: "S \<noteq> {}"
    and s2: "\<forall>n \<in> S. groupNameOf n = ''District Coordinator''"
    and s3: "\<exists>n \<in> S. threadNumber n \<noteq> None"
  shows "threadName ` set (matchingSamplesOf allSamples' userTypeConfig threadGroupNames) = S"
    and "map fst (foldl groupThread []
                    (newSet (map threadName (matchingSamplesOf allSamples' userTypeConfig threadGroupNames))))
           = [''District Coordinator'']"
    and "countThreadInstances allSamples' rampUpWindowMs executionGapMs userTypeConfig threadGroupNames
           = Max {k. \<exists>n \<in> S. threadNumber n = Some k}"
proof -
  define M where "M = matchingSamplesOf allSamples' userTypeConfig threadGroupNames"
  have M: "M = filter (\<lambda>s. threadName s \<noteq> []
                \<and> list_ex (\<lambda>pattern. includes_str (threadName s) pattern) [''District Coordinator''])
             allSamples'"
    unfolding M_def by (rule matchingSamplesOf_patterns [OF a1 a2])
  have "set M = {s \<in> set allSamples'. threadName s \<noteq> []
                        \<and> includes_str (threadName s) ''District Coordinator''}"
    by (auto simp: M)
  then have names: "threadName ` set M = S" using a3 by (simp only:)
  have ne: "M \<noteq> []"
  proof
    assume "M = []"
    then have "threadName ` set M = {}" by simp
    then show False using names s1 by (simp only:)
  qed
  have U: "set (newSet (map threadName M)) = S" using names by (simp add: set_newSet)
  have Une: "newSet (map threadName M) \<noteq> []" using ne by (simp add: newSet_empty)
  have one: "\<forall>n \<in> threadName ` set M. groupNameOf n = ''District Coordinator''"
    unfolding names by (rule s2)
  have some: "\<exists>n \<in> threadName ` set M. threadNumber n \<noteq> None"
    unfolding names by (rule s3)
  show "threadName ` set (matchingSamplesOf allSamples' userTypeConfig threadGroupNames) = S"
    using names by (simp only: M_def)
  have "map fst (foldl groupThread [] (newSet (map threadName M))) = [''District Coordinator'']"
    using Une s2 unfolding U [symmetric] by (rule foldl_groupThread_keys)
  then show "map fst (foldl groupThread []
                    (newSet (map threadName (matchingSamplesOf allSamples' userTypeConfig threadGroupNames))))
           = [''District Coordinator'']"
    by (simp only: M_def)
  have "countMatching rampUpWindowMs executionGapMs M
          = Max {k. \<exists>n \<in> threadName ` set M. threadNumber n = Some k}"
    by (rule countMatching_single_group [OF ne one some])
  then show "countThreadInstances allSamples' rampUpWindowMs executionGapMs userTypeConfig threadGroupNames
           = Max {k. \<exists>n \<in> S. threadNumber n = Some k}"
    unfolding names by (simp add: countThreadInstances_def M_def)
qed

lemma district_coordinator_names:
  "groupNameOf ''District Coordinator 1-1'' = ''District Coordinator''"
  "groupNameOf ''District Coordinator 1-2'' = ''District Coordinator''"
  "groupNameOf ''District Coordinator 1-3'' = ''District Coordinator''"
  "dashNumberMatch ''District Coordinator 1-1'' = Some ''1''"
  "dashNumberMatch ''District Coordinator 1-2'' = Some ''2''"
  "dashNumberMatch ''District Coordinator 1-3'' = Some ''3''"
  "threadNumber ''District Coordinator 1-1'' = Some 1"
  "threadNumber ''District Coordinator 1-2'' = Some 2"
  "threadNumber ''District Coordinator 1-3'' = Some 3"
  by code_simp+

text \<open>
  Claim C8. For a user type whose only pattern is \<open>District Coordinator\<close>, with no thread
  group names from a JMX file, and samples whose matching thread names are exactly
  \<open>District Coordinator 1-1\<close>, \<open>1-2\<close> and \<open>1-3\<close> (in any order and number, among any other
  samples), the count is 3. The names form a single thread group: \<^verbatim>\<open>threadsByGroup\<close> has the
  one key \<open>District Coordinator\<close>. The pattern \<^verbatim>\<open>-<digits>$\<close> finds the digits 1, 2 and 3 at
  the ends of the names, and the count is the greatest of the numbers so read. It is not the
  number of names: when the matching names are \<open>1-1\<close> and \<open>1-3\<close> only, the count is 3 again.
  In general, when the names of the matching samples lie in one group and some name carries
  a number, the count is the greatest number.
\<close>

theorem district_coordinator_concurrency:
  "(threadGroupPatterns userTypeConfig = Some [''District Coordinator'']
    \<and> (threadGroupNames = None \<or> threadGroupNames = Some [])
    \<and> threadName ` {s \<in> set allSamples'. threadName s \<noteq> []
                        \<and> includes_str (threadName s) ''District Coordinator''}
        = {''District Coordinator 1-1'', ''District Coordinator 1-2'', ''District Coordinator 1-3''}
    \<longrightarrow> countThreadInstances allSamples' rampUpWindowMs executionGapMs userTypeConfig threadGroupNames = 3
      \<and> map fst (foldl groupThread []
                    (newSet (map threadName (matchingSamplesOf allSamples' userTypeConfig threadGroupNames))))
           = [''District Coordinator'']
      \<and> {k. \<exists>n \<in> threadName ` set (matchingSamplesOf allSamples' userTypeConfig threadGroupNames).
               \<exists>ds. dashNumberMatch n = Some ds \<and> parseInt10 ds = Some k} = {1, 2, 3}
      \<and> countThreadInstances allSamples' rampUpWindowMs executionGapMs userTypeConfig threadGroupNames
           = Max {k. \<exists>n \<in> threadName ` set (matchingSamplesOf allSamples' userTypeConfig threadGroupNames).
                       \<exists>ds. dashNumberMatch n = Some ds \<and> parseInt10 ds = Some k})
   \<and> (threadGroupPatterns userTypeConfig = Some [''District Coordinator'']
    \<and> (threadGroupNames = None \<or> threadGroupNames = Some [])
    \<and> threadName ` {s \<in> set otherSamples. threadName s \<noteq> []
                        \<and> includes_str (threadName s) ''District Coordinator''}
        = {''District Coordinator 1-1'', ''District Coordinator 1-3''}
    \<longrightarrow> countThreadInstances otherSamples rampUpWindowMs executionGapMs userTypeConfig threadGroupNames = 3)
   \<and> dashNumberMatch ''District Coordinator 1-1'' = Some ''1''
   \<and> dashNumberMatch ''District Coordinator 1-2'' = Some ''2''
   \<and> dashNumberMatch ''District Coordinator 1-3'' = Some ''3''
   \<and> (matchingSamples \<noteq> []
      \<and> (\<forall>n \<in> threadName ` set matchingSamples. groupNameOf n = G)
      \<and> (\<exists>n \<in> threadName ` set matchingSamples. threadNumber n \<noteq> None)
      \<longrightarrow> length (foldl groupThread [] (newSet (map threadName matchingSamples))) = 1
        \<and> countMatching rampUpWindowMs executionGapMs matchingSamples
            = Max {k. \<exists>n \<in> threadName ` set matchingSamples. threadNumber n = Some k})"
proof (intro conjI impI)
  note g = district_coordinator_names(1-3)
  note d = district_coordinator_names(4-6)
  note n = district_coordinator_names(7-9)
  show "dashNumberMatch ''District Coordinator 1-1'' = Some ''1''" by (rule d(1))
  show "dashNumberMatch ''District Coordinator 1-2'' = Some ''2''" by (rule d(2))
  show "dashNumberMatch ''District Coordinator 1-3'' = Some ''3''" by (rule d(3))
  {
    assume a: "threadGroupPatterns userTypeConfig = Some [''District Coordinator'']
      \<and> (threadGroupNames = None \<or> threadGroupNames = Some [])
      \<and> threadName ` {s \<in> set allSamples'. threadName s \<noteq> []
                        \<and> includes_str (threadName s) ''District Coordinator''}
          = {''District Coordinator 1-1'', ''District Coordinator 1-2'', ''District Coordinator 1-3''}"
    let ?S = "{''District Coordinator 1-1'', ''District Coordinator 1-2'', ''District Coordinator 1-3''}"
    note a1 = a [THEN conjunct1]
    note a2 = a [THEN conjunct2, THEN conjunct1]
    note a3 = a [THEN conjunct2, THEN conjunct2]
    have s1: "?S \<noteq> {}" by (simp only: insert_not_empty not_False_eq_True)
    have s2: "\<forall>n \<in> ?S. groupNameOf n = ''District Coordinator''"
      by (intro ballI) (auto simp only: insert_iff empty_iff g)
    have s3: "\<exists>n \<in> ?S. threadNumber n \<noteq> None"
      by (intro bexI [of _ "''District Coordinator 1-1''"]) (simp_all only: n insert_iff simp_thms option.distinct)
    have s4: "\<forall>n \<in> ?S. dashNumberMatch n \<noteq> None"
      by (intro ballI) (auto simp only: insert_iff empty_iff d option.distinct)
    note r = district_coordinator_group [OF a1 a2 a3 s1 s2 s3]
    have nums: "{k. \<exists>n \<in> ?S. threadNumber n = Some k} = {1, 2, 3}"
      by (auto simp only: insert_iff empty_iff n option.inject bex_simps
          Collect_disj_eq singleton_conv2 Un_insert_left Un_empty_left Un_insert_right Un_empty_right)
    have dash: "{k. \<exists>n \<in> threadName ` set (matchingSamplesOf allSamples' userTypeConfig threadGroupNames).
               \<exists>ds. dashNumberMatch n = Some ds \<and> parseInt10 ds = Some k} = {1, 2, 3}"
      unfolding r(1) dash_numbers [OF s4] by (rule nums)
    have c: "countThreadInstances allSamples' rampUpWindowMs executionGapMs userTypeConfig threadGroupNames
               = Max {1, 2, 3}"
      using r(3) [of rampUpWindowMs executionGapMs] unfolding nums .
    show "countThreadInstances allSamples' rampUpWindowMs executionGapMs userTypeConfig threadGroupNames = 3"
      using c by simp
    show "map fst (foldl groupThread []
                    (newSet (map threadName (matchingSamplesOf allSamples' userTypeConfig threadGroupNames))))
           = [''District Coordinator'']"
      by (rule r(2))
    show "{k. \<exists>n \<in> threadName ` set (matchingSamplesOf allSamples' userTypeConfig threadGroupNames).
               \<exists>ds. dashNumberMatch n = Some ds \<and> parseInt10 ds = Some k} = {1, 2, 3}"
      by (rule dash)
    show "countThreadInstances allSamples' rampUpWindowMs executionGapMs userTypeConfig threadGroupNames
           = Max {k. \<exists>n \<in> threadName ` set (matchingSamplesOf allSamples' userTypeConfig threadGroupNames).
                       \<exists>ds. dashNumberMatch n = Some ds \<and> parseInt10 ds = Some k}"
      unfolding dash by (rule c)
  }
  {
    assume a: "threadGroupPatterns userTypeConfig = Some [''District Coordinator'']
      \<and> (threadGroupNames = None \<or> threadGroupNames = Some [])
      \<and> threadName ` {s \<in> set otherSamples. threadName s \<noteq> []
                        \<and> includes_str (threadName s) ''District Coordinator''}
          = {''District Coordinator 1-1'', ''District Coordinator 1-3''}"
    let ?S = "{''District Coordinator 1-1'', ''District Coordinator 1-3''}"
    note a1 = a [THEN conjunct1]
    note a2 = a [THEN conjunct2, THEN conjunct1]
    note a3 = a [THEN conjunct2, THEN conjunct2]
    have s1: "?S \<noteq> {}" by (simp only: insert_not_empty not_False_eq_True)
    have s2: "\<forall>n \<in> ?S. groupNameOf n = ''District Coordinator''"
      by (intro ballI) (auto simp only: insert_iff empty_iff g)
    have s3: "\<exists>n \<in> ?S. threadNumber n \<noteq> None"
      by (intro bexI [of _ "''District Coordinator 1-1''"]) (simp_all only: n insert_iff simp_thms option.distinct)
    note r = district_coordinator_group [OF a1 a2 a3 s1 s2 s3]
    have nums: "{k. \<exists>n \<in> ?S. threadNumber n = Some k} = {1, 3}"
      by (auto simp only: insert_iff empty_iff n option.inject bex_simps
          Collect_disj_eq singleton_conv2 Un_insert_left Un_empty_left Un_insert_right Un_empty_right)
    have "countThreadInstances otherSamples rampUpWindowMs executionGapMs userTypeConfig threadGroupNames
               = Max {1, 3}"
      using r(3) [of rampUpWindowMs executionGapMs] unfolding nums .
    then show "countThreadInstances otherSamples rampUpWindowMs executionGapMs userTypeConfig threadGroupNames = 3"
      by simp
  }
  {
    assume a: "matchingSamples \<noteq> []
      \<and> (\<forall>n \<in> threadName ` set matchingSamples. groupNameOf n = G)
      \<and> (\<exists>n \<in> threadName ` set matchingSamples. threadNumber n \<noteq> None)"
    note a1 = a [THEN conjunct1]
    note a2 = a [THEN conjunct2, THEN conjunct1]
    note a3 = a [THEN conjunct2, THEN conjunct2]
    have "newSet (map threadName matchingSamples) \<noteq> []" using a1 by (simp add: newSet_empty)
    moreover have "\<forall>n \<in> set (newSet (map threadName matchingSamples)). groupNameOf n = G"
      using a2 by (simp add: set_newSet)
    ultimately show "length (foldl groupThread [] (newSet (map threadName matchingSamples))) = 1"
      by (rule foldl_groupThread_single)
    show "countMatching rampUpWindowMs executionGapMs matchingSamples
            = Max {k. \<exists>n \<in> threadName ` set matchingSamples. threadNumber n = Some k}"
      by (rule countMatching_single_group [OF a1 a2 a3])
  }
qed

theorem district_coordinator_concurrency_witness:
  "threadGroupPatterns districtCoordinators = Some [''District Coordinator'']
   \<and> threadName ` {s \<in> set [threadSample ''District Coordinator 1-2'' 10,
                                threadSample ''School User 1-7'' 11,
                                threadSample ''District Coordinator 1-1'' 12,
                                threadSample ''District Coordinator 1-3'' 13,
                                threadSample ''District Coordinator 1-2'' 14].
                      threadName s \<noteq> [] \<and> includes_str (threadName s) ''District Coordinator''}
       = {''District Coordinator 1-1'', ''District Coordinator 1-2'', ''District Coordinator 1-3''}
   \<and> countThreadInstances [threadSample ''District Coordinator 1-2'' 10,
                            threadSample ''School User 1-7'' 11,
                            threadSample ''District Coordinator 1-1'' 12,
                            threadSample ''District Coordinator 1-3'' 13,
                            threadSample ''District Coordinator 1-2'' 14]
        10000 30000 districtCoordinators None = 3
   \<and> threadName ` {s \<in> set [threadSample ''District Coordinator 1-3'' 10,
                                threadSample ''School User 1-7'' 11,
                                threadSample ''District Coordinator 1-1'' 12].
                      threadName s \<noteq> [] \<and> includes_str (threadName s) ''District Coordinator''}
       = {''District Coordinator 1-1'', ''District Coordinator 1-3''}
   \<and> countThreadInstances [threadSample ''District Coordinator 1-3'' 10,
                            threadSample ''School User 1-7'' 11,
                            threadSample ''District Coordinator 1-1'' 12]
        10000 30000 districtCoordinators None = 3
   \<and> length (foldl groupThread [] (newSet (map threadName [threadSample ''School User 1-7'' 11]))) = 1
   \<and> countMatching 10000 30000 [threadSample ''School User 1-7'' 11] = 7"
proof -
  have h1: "threadGroupPatterns districtCoordinators = Some [''District Coordinator'']"
    by (simp add: districtCoordinators_def)
  let ?L = "[threadSample ''District Coordinator 1-2'' 10,
                                threadSample ''School User 1-7'' 11,
                                threadSample ''District Coordinator 1-1'' 12,
                                threadSample ''District Coordinator 1-3'' 13,
                                threadSample ''District Coordinator 1-2'' 14]"
  let ?K = "[threadSample ''District Coordinator 1-3'' 10,
                                threadSample ''School User 1-7'' 11,
                                threadSample ''District Coordinator 1-1'' 12]"
  let ?J = "[threadSample ''School User 1-7'' 11]"
  have f: "map threadName (filter (\<lambda>s. threadName s \<noteq> []
                \<and> includes_str (threadName s) ''District Coordinator'') ?L)
      = [''District Coordinator 1-2'', ''District Coordinator 1-1'',
         ''District Coordinator 1-3'', ''District Coordinator 1-2'']"
    by code_simp
  have "threadName ` {s \<in> set ?L. threadName s \<noteq> [] \<and> includes_str (threadName s) ''District Coordinator''}
      = set (map threadName (filter (\<lambda>s. threadName s \<noteq> []
                \<and> includes_str (threadName s) ''District Coordinator'') ?L))"
    by (simp only: set_map set_filter)
  then have h2: "threadName ` {s \<in> set ?L. threadName s \<noteq> [] \<and> includes_str (threadName s) ''District Coordinator''}
       = {''District Coordinator 1-1'', ''District Coordinator 1-2'', ''District Coordinator 1-3''}"
    unfolding f by auto
  have f': "map threadName (filter (\<lambda>s. threadName s \<noteq> []
                \<and> includes_str (threadName s) ''District Coordinator'') ?K)
      = [''District Coordinator 1-3'', ''District Coordinator 1-1'']"
    by code_simp
  have "threadName ` {s \<in> set ?K. threadName s \<noteq> [] \<and> includes_str (threadName s) ''District Coordinator''}
      = set (map threadName (filter (\<lambda>s. threadName s \<noteq> []
                \<and> includes_str (threadName s) ''District Coordinator'') ?K))"
    by (simp only: set_map set_filter)
  then have h3: "threadName ` {s \<in> set ?K. threadName s \<noteq> [] \<and> includes_str (threadName s) ''District Coordinator''}
       = {''District Coordinator 1-1'', ''District Coordinator 1-3''}"
    unfolding f' by auto
  have j1: "?J \<noteq> []" by simp
  have gj: "groupNameOf ''School User 1-7'' = ''School User''" by code_simp
  have nj: "threadNumber ''School User 1-7'' = Some 7" by code_simp
  have j2: "\<forall>n \<in> threadName ` set ?J. groupNameOf n = ''School User''"
    by (simp add: threadSample_def gj)
  have j3: "\<exists>n \<in> threadName ` set ?J. threadNumber n \<noteq> None"
    by (simp add: threadSample_def nj)
  have j4: "{k. \<exists>n \<in> threadName ` set ?J. threadNumber n = Some k} = {7}"
    by (simp add: threadSample_def nj)
  note inst = district_coordinator_concurrency [where userTypeConfig = districtCoordinators
        and threadGroupNames = None and allSamples' = ?L and otherSamples = ?K
        and matchingSamples = ?J and G = "''School User''"
        and rampUpWindowMs = 10000 and executionGapMs = 30000]
  have c1: "countThreadInstances ?L 10000 30000 districtCoordinators None = 3"
    using inst h1 h2 by blast
  have c2: "countThreadInstances ?K 10000 30000 districtCoordinators None = 3"
    using inst h1 h3 by blast
  have c3: "length (foldl groupThread [] (newSet (map threadName ?J))) = 1
          \<and> countMatching 10000 30000 ?J = Max {k. \<exists>n \<in> threadName ` set ?J. threadNumber n = Some k}"
    using inst j1 j2 j3 by blast
  then have c4: "countMatching 10000 30000 ?J = 7" unfolding j4 by simp
  show ?thesis using h1 h2 h3 c1 c2 c3 c4 by (simp only: simp_thms)
qed

subsection \<open>When the count is at least one\<close>

lemma foldl_max_ge: "n \<le> foldl max n (ns :: int list)"
proof (induction ns arbitrary: n)
  case Nil
  then show ?case by simp
next
  case (Cons m ns)
  have "n \<le> max n m" by simp
  also have "\<dots> \<le> foldl max (max n m) ns" by (rule Cons)
  finally show ?case by simp
qed

lemma groupThread_filled:
  assumes "groupsFilled names m" and "x \<in> names"
  shows "groupsFilled names (groupThread m x)"
proof -
  define G where "G = groupNameOf x"
  define m1 where "m1 = (if G \<in> set (map fst m) then m else m @ [(G, [])])"
  define f where "f = (\<lambda>(k :: string, threads). if k = G then (k, setAdd threads x) else (k, threads))"
  have r: "groupThread m x = map f m1"
    by (simp add: groupThread_def Let_def G_def m1_def f_def)
  have m1: "e \<in> set m \<or> e = (G, [])" if "e \<in> set m1" for e
    using that by (auto simp: m1_def split: if_splits)
  have "snd (f e) \<noteq> [] \<and> set (snd (f e)) \<subseteq> names" if e: "e \<in> set m1" for e
  proof (cases "fst e = G")
    case True
    have "set (snd e) \<subseteq> names"
      using m1 [OF e] assms(1) by (auto simp: groupsFilled_def)
    then have "setAdd (snd e) x \<noteq> [] \<and> set (setAdd (snd e) x) \<subseteq> names"
      using assms(2) by (auto simp: setAdd_def)
    then show ?thesis using True by (cases e) (simp add: f_def)
  next
    case False
    then have "e \<in> set m" using m1 [OF e] by auto
    then have "snd e \<noteq> [] \<and> set (snd e) \<subseteq> names"
      using assms(1) by (simp add: groupsFilled_def)
    then show ?thesis using False by (cases e) (simp add: f_def)
  qed
  then show ?thesis unfolding r groupsFilled_def by auto
qed

lemma foldl_groupThread_filled:
  "groupsFilled names m \<Longrightarrow> set xs \<subseteq> names \<Longrightarrow> groupsFilled names (foldl groupThread m xs)"
  by (induction xs arbitrary: m) (simp_all add: groupThread_filled)

lemma addGroupCount_ge:
  assumes "snd entry \<noteq> []"
    and "\<forall>n \<in> set (snd entry). \<forall>k. threadNumber n = Some k \<longrightarrow> 1 \<le> k"
  shows "totalCount + 1 \<le> addGroupCount totalCount entry"
proof (cases "List.map_filter threadNumber (snd entry)")
  case Nil
  have "1 \<le> int (length (snd entry))" using assms(1) by (cases "snd entry") simp_all
  then show ?thesis using Nil by (simp add: addGroupCount_def)
next
  case (Cons k ks)
  then have "k \<in> set (List.map_filter threadNumber (snd entry))" by simp
  then have "1 \<le> k" using assms(2) unfolding set_map_filter_Some by blast
  then have "1 \<le> foldl max k ks" using foldl_max_ge [of k ks] by linarith
  then show ?thesis using Cons by (simp add: addGroupCount_def)
qed

lemma foldl_addGroupCount_ge:
  "\<forall>entry \<in> set m. snd entry \<noteq> []
       \<and> (\<forall>n \<in> set (snd entry). \<forall>k. threadNumber n = Some k \<longrightarrow> 1 \<le> k) \<Longrightarrow>
   totalCount + int (length m) \<le> foldl addGroupCount totalCount m"
proof (induction m arbitrary: totalCount)
  case Nil
  then show ?case by simp
next
  case (Cons entry m)
  have "totalCount + 1 \<le> addGroupCount totalCount entry"
    using Cons.prems by (intro addGroupCount_ge) simp_all
  moreover have "addGroupCount totalCount entry + int (length m)
      \<le> foldl addGroupCount (addGroupCount totalCount entry) m"
    using Cons.prems by (intro Cons.IH) simp
  ultimately show ?case by simp
qed

text \<open>With a matching sample, the count is at least one as soon as no thread name carries
  the number 0.\<close>

lemma countMatching_positive:
  assumes "matchingSamples \<noteq> []"
    and "\<forall>n \<in> threadName ` set matchingSamples. \<forall>k. threadNumber n = Some k \<longrightarrow> 1 \<le> k"
  shows "1 \<le> countMatching rampUpWindowMs executionGapMs matchingSamples"
proof -
  let ?U = "newSet (map threadName matchingSamples)"
  let ?G = "foldl groupThread [] ?U"
  have setU: "set ?U = threadName ` set matchingSamples" by (simp add: set_newSet)
  show ?thesis
  proof (cases "length ?G > 1")
    case True
    have "groupsFilled (set ?U) ?G"
      by (intro foldl_groupThread_filled) (simp_all add: groupsFilled_def)
    then have "\<forall>entry \<in> set ?G. snd entry \<noteq> []
       \<and> (\<forall>n \<in> set (snd entry). \<forall>k. threadNumber n = Some k \<longrightarrow> 1 \<le> k)"
      using assms(2) setU unfolding groupsFilled_def by blast
    then have "0 + int (length ?G) \<le> foldl addGroupCount 0 ?G"
      by (rule foldl_addGroupCount_ge)
    then show ?thesis using True assms(1) by (simp add: countMatching_def Let_def)
  next
    case False
    show ?thesis
    proof (cases "List.map_filter threadNumber ?U")
      case Nil
      then show ?thesis using False assms(1) by (simp add: countMatching_def Let_def)
    next
      case (Cons k ks)
      then have "k \<in> set (List.map_filter threadNumber ?U)" by simp
      then have "1 \<le> k" using assms(2) setU unfolding set_map_filter_Some by blast
      then have "1 \<le> foldl max k ks" using foldl_max_ge [of k ks] by linarith
      then show ?thesis using False assms(1) Cons by (simp add: countMatching_def Let_def)
    qed
  qed
qed

text \<open>
  Claim C9, on a thread named with the number 0. One sample matches the pattern of the user
  type, and the count is 0: it is the greatest trailing number of the names, and the only
  name ends in \<open>-0\<close>. The last path of \<^verbatim>\<open>countThreadInstances\<close> returns
  \<^verbatim>\<open>Math.max(..., 1)\<close> to give at least 1 when there are samples; the paths that take the
  greatest thread number do not.
\<close>

theorem thread_numbered_zero_counts_zero:
  "length (matchingSamplesOf [threadSample ''District Coordinator 1-0'' 1000] districtCoordinators None) = 1
   \<and> countThreadInstances [threadSample ''District Coordinator 1-0'' 1000] 10000 30000
        districtCoordinators None = 0"
  by code_simp


end
